theory Spec2Isabelle
  imports Main "HOL-Library.Word"
begin

unbundle bit_operations_syntax

section \<open>The TFFS reader of \<^verbatim>\<open>fritz_tffs_read.c\<close>\<close>

text \<open>
  The development embeds \<^verbatim>\<open>tffs_find_id\<close> and \<^verbatim>\<open>tffs_parse\<close> together with the
  static table \<^verbatim>\<open>ids\<close>. Fixed-width C integers are words: \<^verbatim>\<open>uint8_t\<close>,
  \<^verbatim>\<open>uint16_t\<close> and \<^verbatim>\<open>uint32_t\<close> are 8, 16 and 32 bit words, and
  \<^verbatim>\<open>unsigned long\<close> and \<^verbatim>\<open>size_t\<close> are 64 bit words (the LP64 data model of
  64-bit Linux). The byte order of the host is a parameter.
\<close>

type_synonym u8 = "8 word"
type_synonym u16 = "16 word"
type_synonym u32 = "32 word"
type_synonym u64 = "64 word"

subsection \<open>Byte order\<close>

datatype endianness = Little_Endian | Big_Endian

text \<open>The \<^verbatim>\<open>uint16_t\<close> a host reads from two consecutive bytes of memory.\<close>

definition load_u16 :: "endianness \<Rightarrow> u8 \<Rightarrow> u8 \<Rightarrow> u16" where
  "load_u16 h b0 b1 =
     (case h of
        Little_Endian \<Rightarrow> push_bit 8 (ucast b1) OR ucast b0
      | Big_Endian \<Rightarrow> push_bit 8 (ucast b0) OR ucast b1)"

text \<open>The two bytes a host writes to memory for a \<^verbatim>\<open>uint16_t\<close>.\<close>

definition store_u16 :: "endianness \<Rightarrow> u16 \<Rightarrow> u8 list" where
  "store_u16 h v =
     (case h of
        Little_Endian \<Rightarrow> [ucast v, ucast (drop_bit 8 v)]
      | Big_Endian \<Rightarrow> [ucast (drop_bit 8 v), ucast v])"

text \<open>
  \<^verbatim>\<open>ntohs\<close> of \<^verbatim>\<open><arpa/inet.h>\<close>: network (big-endian) to host byte order. It
  exchanges the two bytes on a little-endian host and is the identity on a big-endian one.
\<close>

definition ntohs :: "endianness \<Rightarrow> u16 \<Rightarrow> u16" where
  "ntohs h v =
     (case h of
        Little_Endian \<Rightarrow> push_bit 8 v OR drop_bit 8 v
      | Big_Endian \<Rightarrow> v)"

subsection \<open>The key registry\<close>

text \<open>
  \<^verbatim>\<open>struct tffs_id { uint32_t id; char *name; void *val; uint32_t offset; uint32_t len; }\<close>.
  The field \<^verbatim>\<open>id\<close> is \<open>id_tag\<close> here. The pointer \<^verbatim>\<open>val\<close> is \<open>None\<close> when it
  is \<^verbatim>\<open>NULL\<close> and \<open>Some bs\<close> when it points to an allocated block holding the bytes \<open>bs\<close>.
\<close>

record tffs_id =
  id_tag :: u32
  name :: string
  val :: "u8 list option"
  offset :: u32
  len :: u32

text \<open>
  An initialiser \<^verbatim>\<open>{ tag, "name" }\<close> of the static array: the members left out are
  zero-initialised.
\<close>

definition init_id :: "u32 \<Rightarrow> string \<Rightarrow> tffs_id" where
  "init_id t n = \<lparr>id_tag = t, name = n, val = None, offset = 0, len = 0\<rparr>"

definition ids :: "tffs_id list" where
  "ids =
     [init_id 0x0100 ''hw_revision'',
      init_id 0x0101 ''productid'',
      init_id 0x0102 ''serialnumber'',
      init_id 0x0103 ''dmc'',
      init_id 0x0104 ''hw_subrevision'',
      init_id 0x0182 ''bootloader_version'',
      init_id 0x0184 ''macbluetooth'',
      init_id 0x0188 ''maca'',
      init_id 0x0189 ''macb'',
      init_id 0x018A ''macwlan'',
      init_id 0x018B ''macdsl'',
      init_id 0x018F ''my_ipaddress'',
      init_id 0x0195 ''macwlan2'',
      init_id 0x01A3 ''usb_device_id'',
      init_id 0x01A3 ''usb_revision_id'',
      init_id 0x01A4 ''usb_device_name'',
      init_id 0x01A5 ''usb_manufacturer_name'',
      init_id 0x01A6 ''firmware_version'',
      init_id 0x01A7 ''language'',
      init_id 0x01A8 ''country'',
      init_id 0x01A9 ''annex'',
      init_id 0x01AB ''wlan_key'',
      init_id 0x01AD ''http_key'',
      init_id 0x01B8 ''wlan_cal'',
      init_id 0x01FD ''urlader_version'']"

text \<open>
  \<^verbatim>\<open>tffs_find_id(int id)\<close>: the \<^verbatim>\<open>for\<close> loop over the table from index \<open>i\<close> on. The
  comparison \<^verbatim>\<open>id == ids[i].id\<close> converts the \<^verbatim>\<open>int\<close> to \<^verbatim>\<open>uint32_t\<close>. The
  result is the index of the entry the returned pointer refers to, \<open>None\<close> for
  \<^verbatim>\<open>NULL\<close>. The table is a parameter, since \<^verbatim>\<open>tffs_parse\<close> changes it.
\<close>

function tffs_find_id_from :: "tffs_id list \<Rightarrow> int \<Rightarrow> nat \<Rightarrow> nat option" where
  "tffs_find_id_from tbl x i =
     (if i < length tbl
      then (if word_of_int x = id_tag (tbl ! i) then Some i
            else tffs_find_id_from tbl x (Suc i))
      else None)"
  by pat_completeness auto
termination
  by (relation "measure (\<lambda>(tbl, x, i). length tbl - i)") auto

definition tffs_find_id :: "tffs_id list \<Rightarrow> int \<Rightarrow> nat option" where
  "tffs_find_id tbl x = tffs_find_id_from tbl x 0"

subsection \<open>The decoder\<close>

text \<open>
  The state of \<^verbatim>\<open>tffs_parse\<close>: the bytes of the block \<^verbatim>\<open>buffer\<close> points to, the
  global table \<^verbatim>\<open>ids\<close>, and the locals \<^verbatim>\<open>pos\<close> and \<^verbatim>\<open>count\<close>.
\<close>

record pstate =
  buffer :: "u8 list"
  table :: "tffs_id list"
  pos :: u32
  count :: u32

text \<open>
  An access outside the block \<^verbatim>\<open>buffer\<close> points to has no defined behaviour in C.
  \<open>Out_Of_Bounds p n\<close> marks an execution that accesses the \<open>n\<close> bytes from offset \<open>p\<close>
  on, not all of which are in the block. It is not a value \<^verbatim>\<open>tffs_parse\<close> returns.
\<close>

datatype fault = Out_Of_Bounds nat nat

datatype outcome = Goto_End pstate | Continue pstate | Undefined fault

text \<open>\<^verbatim>\<open>(entry->len + 3) & ~0x03\<close>, as added to the \<^verbatim>\<open>uint32_t pos\<close>.\<close>

definition padded_len :: "u16 \<Rightarrow> u32" where
  "padded_len l = (ucast l + 3) AND NOT 3"

text \<open>
  \<^verbatim>\<open>entry->id = ntohs(entry->id)\<close> for the \<^verbatim>\<open>uint16_t\<close> at offset \<open>p\<close> of the
  buffer: the value stored, and the buffer after the store.
\<close>

definition swap_u16_at :: "endianness \<Rightarrow> u8 list \<Rightarrow> nat \<Rightarrow> u16 \<times> u8 list" where
  "swap_u16_at h buf p =
     (let v = ntohs h (load_u16 h (buf ! p) (buf ! (p + 1)));
          bs = store_u16 h v
      in (v, buf[p := bs ! 0, p + 1 := bs ! 1]))"

text \<open>
  One pass through the body of the \<^verbatim>\<open>while\<close> loop, with \<^verbatim>\<open>entry\<close> laid over the
  4 bytes of the buffer at \<^verbatim>\<open>pos\<close>. The accesses to the header and the bytes
  \<^verbatim>\<open>memcpy\<close> reads must lie in the block. \<^verbatim>\<open>calloc\<close> is taken to succeed; it returns
  \<^verbatim>\<open>entry->len + 1\<close> zero bytes, of which \<^verbatim>\<open>memcpy\<close> overwrites the first
  \<^verbatim>\<open>entry->len\<close>.
\<close>

definition tffs_parse_iter :: "endianness \<Rightarrow> pstate \<Rightarrow> outcome" where
  "tffs_parse_iter h s =
     (let p = unat (pos s) in
      if length (buffer s) < p + 4 then Undefined (Out_Of_Bounds p 4)
      else
        let (entry_id, buf1) = swap_u16_at h (buffer s) p;
            (entry_len, buf2) = swap_u16_at h buf1 (p + 2)
        in if entry_id = 0xffff then Goto_End (s\<lparr>buffer := buf2\<rparr>)
           else
             let pos1 = pos s + 4 in
             (case tffs_find_id (table s) (uint entry_id) of
                None \<Rightarrow>
                  Continue (s\<lparr>buffer := buf2, pos := pos1 + padded_len entry_len\<rparr>)
              | Some i \<Rightarrow>
                  if length buf2 < unat pos1 + unat entry_len
                  then Undefined (Out_Of_Bounds (unat pos1) (unat entry_len))
                  else
                    let blk = replicate (unat entry_len + 1) (0 :: u8);
                        blk' = take (unat entry_len) (drop (unat pos1) buf2)
                                 @ drop (unat entry_len) blk;
                        e = (table s ! i)\<lparr>len := ucast entry_len, offset := pos1,
                                            val := Some blk'\<rparr>
                    in Continue (s\<lparr>buffer := buf2, table := (table s)[i := e],
                                    count := count s + 1,
                                    pos := pos1 + padded_len entry_len\<rparr>)))"

text \<open>
  The \<^verbatim>\<open>while\<close> loop. Its condition \<^verbatim>\<open>pos + sizeof(struct tffs_entry) < tffs_size\<close>
  is evaluated in \<^verbatim>\<open>unsigned long\<close>. The result is \<open>None\<close> when the loop runs forever.
\<close>

partial_function (option) tffs_parse_loop ::
  "endianness \<Rightarrow> u64 \<Rightarrow> pstate \<Rightarrow> (fault + pstate) option" where
  "tffs_parse_loop h tffs_size s =
     (if ucast (pos s) + 4 < tffs_size
      then (case tffs_parse_iter h s of
              Undefined f \<Rightarrow> Some (Inl f)
            | Goto_End s' \<Rightarrow> Some (Inr s')
            | Continue s' \<Rightarrow> tffs_parse_loop h tffs_size s')
      else Some (Inr s))"

text \<open>
  \<^verbatim>\<open>tffs_parse(buffer)\<close> with the globals \<^verbatim>\<open>tffs_size\<close> and \<^verbatim>\<open>ids\<close> as
  parameters. The C function returns \<open>count\<close> of the final state; \<open>table\<close> and
  \<open>buffer\<close> of the final state are what it leaves in \<^verbatim>\<open>ids\<close> and in the buffer.
  \<^verbatim>\<open>main\<close> calls it once, on a block of \<^verbatim>\<open>tffs_size\<close> bytes that \<^verbatim>\<open>fread\<close> has
  filled, with \<^verbatim>\<open>ids\<close> as initialised.
\<close>

declare tffs_parse_loop.simps [code]

definition tffs_parse :: "endianness \<Rightarrow> u64 \<Rightarrow> tffs_id list \<Rightarrow> u8 list \<Rightarrow> (fault + pstate) option" where
  "tffs_parse h tffs_size tbl buf =
     tffs_parse_loop h tffs_size \<lparr>buffer = buf, table = tbl, pos = 0, count = 0\<rparr>"

section \<open>Notions used to state the properties\<close>

text \<open>
  The value of two consecutive bytes read as a big-endian 16-bit number, and the two bytes
  a host leaves in memory after storing that number as a \<^verbatim>\<open>uint16_t\<close>.
\<close>

definition be16 :: "u8 \<Rightarrow> u8 \<Rightarrow> u16" where
  "be16 b0 b1 = push_bit 8 (ucast b0) OR ucast b1"

definition host_bytes :: "endianness \<Rightarrow> u8 \<Rightarrow> u8 \<Rightarrow> u8 list" where
  "host_bytes h b0 b1 = (case h of Little_Endian \<Rightarrow> [b1, b0] | Big_Endian \<Rightarrow> [b0, b1])"

text \<open>
  A record of the store as the wire format describes it: a tag, the payload, and the
  bytes that pad the payload to a multiple of 4. A record is well formed when its tag is not
  the sentinel, the length of its payload fits the 16-bit length field, and its padding is
  the shortest that reaches a multiple of 4.
\<close>

record tlv =
  tlv_tag :: u16
  tlv_payload :: "u8 list"
  tlv_padding :: "u8 list"

definition tlv_ok :: "tlv \<Rightarrow> bool" where
  "tlv_ok r \<longleftrightarrow>
     tlv_tag r \<noteq> 0xffff \<and> length (tlv_payload r) < 65536 \<and>
     length (tlv_padding r) < 4 \<and>
     (length (tlv_payload r) + length (tlv_padding r)) mod 4 = 0"

text \<open>
  The bytes of a record with the two header fields in the byte order of \<open>h\<close>. The wire
  format is \<open>tlv_bytes Big_Endian\<close>.
\<close>

definition tlv_bytes :: "endianness \<Rightarrow> tlv \<Rightarrow> u8 list" where
  "tlv_bytes h r =
     store_u16 h (tlv_tag r) @ store_u16 h (word_of_nat (length (tlv_payload r)))
       @ tlv_payload r @ tlv_padding r"

definition wire :: "tlv list \<Rightarrow> u8 list" where
  "wire rs = concat (map (tlv_bytes Big_Endian) rs)"

text \<open>
  What may follow the records of a stream for the scan to end there: between one and four
  bytes (too few for the loop to read another header), or a header with the sentinel tag
  and at least one byte after it; and those bytes after the scan.
\<close>

definition scan_end :: "u8 list \<Rightarrow> bool" where
  "scan_end rest \<longleftrightarrow>
     (0 < length rest \<and> length rest \<le> 4) \<or>
     (4 < length rest \<and> rest ! 0 = 0xff \<and> rest ! 1 = 0xff)"

definition scan_end_bytes :: "endianness \<Rightarrow> u8 list \<Rightarrow> u8 list" where
  "scan_end_bytes h rest =
     (if length rest \<le> 4 then rest
      else host_bytes h (rest ! 0) (rest ! 1) @ host_bytes h (rest ! 2) (rest ! 3) @ drop 4 rest)"

text \<open>A tag is registered in a table when the lookup finds an entry for it.\<close>

definition registered :: "tffs_id list \<Rightarrow> u16 \<Rightarrow> bool" where
  "registered tbl t \<longleftrightarrow> tffs_find_id tbl (uint t) \<noteq> None"

text \<open>
  The table after the record \<open>r\<close>, whose header is at offset \<open>off\<close>, has been decoded, and
  after a list of consecutive records has.
\<close>

definition store_value :: "tffs_id list \<Rightarrow> nat \<Rightarrow> tlv \<Rightarrow> tffs_id list" where
  "store_value tbl off r =
     (case tffs_find_id tbl (uint (tlv_tag r)) of
        None \<Rightarrow> tbl
      | Some i \<Rightarrow> tbl[i := (tbl ! i)\<lparr>len := word_of_nat (length (tlv_payload r)),
                                     offset := word_of_nat (off + 4),
                                     val := Some (tlv_payload r @ [0])\<rparr>])"

fun store_values :: "tffs_id list \<Rightarrow> nat \<Rightarrow> tlv list \<Rightarrow> tffs_id list" where
  "store_values tbl off [] = tbl"
| "store_values tbl off (r # rs) =
     store_values (store_value tbl off r) (off + length (tlv_bytes Big_Endian r)) rs"

section \<open>Auxiliary facts\<close>

subsection \<open>Word arithmetic of the loop\<close>

lemma unat_u16_bound: "unat (l :: u16) < 65536"
  using unsigned_less[of l, where 'a=nat] by simp

lemma unat_u32_bound: "unat (p :: u32) < 4294967296"
  using unsigned_less[of p, where 'a=nat] by simp

lemma loop_guard_iff: "((ucast (p::u32) :: u64) + 4 < sz) = (unat p + 4 < unat sz)"
proof -
  have "unat ((ucast p :: u64) + 4) = unat p + 4"
    using unat_u32_bound[of p]
    by (simp add: unat_word_ariths unsigned_ucast_eq take_bit_nat_eq_self)
  thus ?thesis by (simp add: word_less_nat_alt)
qed

lemma and_not_3: "(x::u32) AND NOT 3 = push_bit 2 (drop_bit 2 x)"
proof -
  have m: "(3::u32) = mask 2" by (simp add: mask_eq_exp_minus_1)
  have *: "\<And>n::nat. 2 \<le> n \<Longrightarrow> Suc (Suc (n - 2)) = n" by arith
  show ?thesis unfolding m
    by (rule bit_word_eqI) (auto simp add: bit_simps * not_less)
qed

lemma unat_padded_len: "unat (padded_len l) = ((unat l + 3) div 4) * 4"
proof -
  define x :: u32 where "x = ucast l + 3"
  have ux: "unat x = unat l + 3"
    using unat_u16_bound[of l]
    by (simp add: x_def unat_word_ariths unsigned_ucast_eq take_bit_nat_eq_self)
  have d: "unat (x div 4) = unat x div 4" by (simp add: unat_div)
  have "unat (x div 4) * unat (4::u32) < 2 ^ LENGTH(32)"
    using unat_u16_bound[of l] ux d by simp
  hence "unat (x div 4 * 4) = unat (x div 4) * unat (4::u32)"
    by (simp only: unat_mult_lem)
  hence "unat (push_bit 2 (drop_bit 2 x)) = (unat x div 4) * 4"
    using d by (simp add: push_bit_eq_mult drop_bit_eq_div)
  thus ?thesis unfolding padded_len_def and_not_3 x_def[symmetric] using ux by simp
qed

lemma unat_padded_len_le: "unat (padded_len l) \<le> 65536"
  using unat_u16_bound[of l] by (simp add: unat_padded_len)

lemma unat_pos_advance:
  assumes "unat (p::u32) + 4 + unat (padded_len l) < 4294967296"
  shows "unat (p + 4 + padded_len l) = unat p + 4 + unat (padded_len l)"
proof -
  have "unat (p + 4) = unat p + 4"
    using assms by (simp add: unat_word_ariths)
  thus ?thesis using assms by (simp add: unat_word_ariths)
qed

lemma unat_pos_plus_4:
  assumes "unat (p::u32) + 4 < 4294967296"
  shows "unat (p + 4) = unat p + 4"
  using assms by (simp add: unat_word_ariths)

subsection \<open>Byte order of the header fields\<close>

lemma ntohs_load_u16: "ntohs h (load_u16 h b0 b1) = be16 b0 b1"
  unfolding be16_def
  apply (cases h; simp add: ntohs_def load_u16_def)
  apply (rule bit_word_eqI)
  apply (auto simp add: bit_simps dest: bit_imp_le_length)
  done

lemma store_u16_be16: "store_u16 h (be16 b0 b1) = host_bytes h b0 b1"
  unfolding be16_def host_bytes_def
  apply (cases h; simp add: store_u16_def)
  apply (intro conjI; rule bit_word_eqI; auto simp add: bit_simps dest: bit_imp_le_length)
  apply (intro conjI; rule bit_word_eqI; auto simp add: bit_simps dest: bit_imp_le_length)
  done

lemma be16_store_u16: "store_u16 Big_Endian v = [b0, b1] \<Longrightarrow> be16 b0 b1 = v"
  unfolding be16_def
  apply (simp add: store_u16_def)
  apply (rule bit_word_eqI; auto simp add: bit_simps dest: bit_imp_le_length)
  done

lemma be16_ffff: "be16 b0 b1 = 0xffff \<longleftrightarrow> b0 = 0xff \<and> b1 = 0xff"
proof
  assume "be16 b0 b1 = 0xffff"
  hence "store_u16 Big_Endian (be16 b0 b1) = store_u16 Big_Endian 0xffff" by simp
  thus "b0 = 0xff \<and> b1 = 0xff"
    by (simp add: store_u16_be16 host_bytes_def) (simp add: store_u16_def)
next
  assume "b0 = 0xff \<and> b1 = 0xff"
  thus "be16 b0 b1 = 0xffff" by (simp add: be16_def)
qed

lemma length_host_bytes [simp]: "length (host_bytes h b0 b1) = 2"
  by (cases h) (simp_all add: host_bytes_def)

lemma swap_u16_at_append:
  "swap_u16_at h (pre @ b0 # b1 # rest) (length pre) = (be16 b0 b1, pre @ host_bytes h b0 b1 @ rest)"
  by (cases h) (simp_all add: swap_u16_at_def ntohs_load_u16 store_u16_be16 host_bytes_def list_update_append nth_append)

lemma tffs_parse_iter_at:
  assumes buf: "buffer s = pre @ t0 # t1 # l0 # l1 # rest"
    and p: "unat (pos s) = length pre"
    and small: "length pre + 4 < 4294967296"
  shows "tffs_parse_iter h s =
    (let buf2 = pre @ host_bytes h t0 t1 @ host_bytes h l0 l1 @ rest in
     if be16 t0 t1 = 0xffff then Goto_End (s\<lparr>buffer := buf2\<rparr>)
     else (case tffs_find_id (table s) (uint (be16 t0 t1)) of
             None \<Rightarrow> Continue (s\<lparr>buffer := buf2, pos := pos s + 4 + padded_len (be16 l0 l1)\<rparr>)
           | Some i \<Rightarrow>
               if length rest < unat (be16 l0 l1)
               then Undefined (Out_Of_Bounds (length pre + 4) (unat (be16 l0 l1)))
               else Continue (s\<lparr>buffer := buf2,
                      table := (table s)[i := (table s ! i)\<lparr>len := ucast (be16 l0 l1), offset := pos s + 4,
                                   val := Some (take (unat (be16 l0 l1)) rest @ [0])\<rparr>],
                      count := count s + 1,
                      pos := pos s + 4 + padded_len (be16 l0 l1)\<rparr>)))"
proof -
  have s1: "swap_u16_at h (pre @ t0 # t1 # l0 # l1 # rest) (length pre)
      = (be16 t0 t1, pre @ host_bytes h t0 t1 @ l0 # l1 # rest)"
    by (simp add: swap_u16_at_append)
  have s2: "swap_u16_at h (pre @ host_bytes h t0 t1 @ l0 # l1 # rest) (Suc (Suc (length pre)))
      = (be16 l0 l1, pre @ host_bytes h t0 t1 @ host_bytes h l0 l1 @ rest)"
    using swap_u16_at_append[of h "pre @ host_bytes h t0 t1" l0 l1 rest] by simp
  have p4: "unat (pos s + 4) = length pre + 4"
    using unat_pos_plus_4[of "pos s"] p small by simp
  have blk: "\<And>n. drop n ((0::u8) # replicate n 0) = [0]"
    using drop_replicate[of _ "Suc _" "0::u8"] by simp
  show ?thesis
    unfolding tffs_parse_iter_def
    by (simp add: p s1 s2 p4 blk Let_def buf split: option.split)
qed

subsection \<open>The registry lookup\<close>

lemma tffs_find_id_from_Some_iff:
  "tffs_find_id_from tbl x i = Some k \<longleftrightarrow>
     i \<le> k \<and> k < length tbl \<and> id_tag (tbl ! k) = word_of_int x \<and>
     (\<forall>j. i \<le> j \<and> j < k \<longrightarrow> id_tag (tbl ! j) \<noteq> word_of_int x)"
proof (induction tbl x i rule: tffs_find_id_from.induct)
  case (1 tbl x i)
  show ?case
  proof (cases "i < length tbl")
    case False
    then show ?thesis by (subst tffs_find_id_from.simps) auto
  next
    case True
    show ?thesis
    proof (cases "word_of_int x = id_tag (tbl ! i)")
      case hit: True
      have "tffs_find_id_from tbl x i = Some i"
        using True hit by (subst tffs_find_id_from.simps) simp
      moreover have "k = i"
        if "i \<le> k" "\<forall>j. i \<le> j \<and> j < k \<longrightarrow> id_tag (tbl ! j) \<noteq> word_of_int x"
        using that hit by (metis le_neq_implies_less order_refl)
      ultimately show ?thesis using True hit by auto
    next
      case miss: False
      have "tffs_find_id_from tbl x i = tffs_find_id_from tbl x (Suc i)"
        using True miss by (subst tffs_find_id_from.simps) simp
      moreover have "(i \<le> k \<and> id_tag (tbl ! k) = word_of_int x)
          = (Suc i \<le> k \<and> id_tag (tbl ! k) = word_of_int x)"
        using miss by (metis Suc_leI le_neq_implies_less Suc_leD)
      moreover have "(\<forall>j. i \<le> j \<and> j < k \<longrightarrow> id_tag (tbl ! j) \<noteq> word_of_int x)
          = (\<forall>j. Suc i \<le> j \<and> j < k \<longrightarrow> id_tag (tbl ! j) \<noteq> word_of_int x)"
        using miss by (metis Suc_leI le_neq_implies_less Suc_leD)
      ultimately show ?thesis using "1.IH"[OF True miss] by auto
    qed
  qed
qed

lemma tffs_find_id_Some_iff:
  "tffs_find_id tbl x = Some k \<longleftrightarrow>
     k < length tbl \<and> id_tag (tbl ! k) = word_of_int x \<and>
     (\<forall>j<k. id_tag (tbl ! j) \<noteq> word_of_int x)"
  by (simp only: tffs_find_id_def tffs_find_id_from_Some_iff le0 simp_thms)

lemma tffs_find_id_from_None_iff:
  "tffs_find_id_from tbl x i = None \<longleftrightarrow>
     (\<forall>j. i \<le> j \<and> j < length tbl \<longrightarrow> id_tag (tbl ! j) \<noteq> word_of_int x)"
proof (induction tbl x i rule: tffs_find_id_from.induct)
  case (1 tbl x i)
  show ?case
  proof (cases "i < length tbl")
    case False
    then show ?thesis by (subst tffs_find_id_from.simps) auto
  next
    case True
    show ?thesis
    proof (cases "word_of_int x = id_tag (tbl ! i)")
      case hit: True
      have "tffs_find_id_from tbl x i = Some i"
        using True hit by (subst tffs_find_id_from.simps) simp
      thus ?thesis using True hit by auto
    next
      case miss: False
      have "tffs_find_id_from tbl x i = tffs_find_id_from tbl x (Suc i)"
        using True miss by (subst tffs_find_id_from.simps) simp
      moreover have "(\<forall>j. i \<le> j \<and> j < length tbl \<longrightarrow> id_tag (tbl ! j) \<noteq> word_of_int x)
          = (\<forall>j. Suc i \<le> j \<and> j < length tbl \<longrightarrow> id_tag (tbl ! j) \<noteq> word_of_int x)"
        using miss by (metis Suc_leI le_neq_implies_less Suc_leD)
      ultimately show ?thesis using "1.IH"[OF True miss] by simp
    qed
  qed
qed

lemma tffs_find_id_None_iff:
  "tffs_find_id tbl x = None \<longleftrightarrow> (\<forall>e\<in>set tbl. id_tag e \<noteq> word_of_int x)"
  by (simp only: tffs_find_id_def tffs_find_id_from_None_iff all_set_conv_all_nth le0 simp_thms)

lemma tffs_find_id_cong:
  assumes "map id_tag t1 = map id_tag t2"
  shows "tffs_find_id t1 x = tffs_find_id t2 x"
proof -
  have l: "length t1 = length t2" using assms by (rule map_eq_imp_length_eq)
  have n: "id_tag (t1 ! k) = id_tag (t2 ! k)" if "k < length t2" for k
    using arg_cong[OF assms, of "\<lambda>xs. xs ! k"] that l by simp
  show ?thesis
  proof (cases "tffs_find_id t2 x")
    case None
    hence "\<forall>j<length t2. id_tag (t2 ! j) \<noteq> word_of_int x"
      by (simp add: tffs_find_id_None_iff all_set_conv_all_nth)
    hence "\<forall>j<length t1. id_tag (t1 ! j) \<noteq> word_of_int x" using l n by simp
    hence "tffs_find_id t1 x = None"
      by (simp add: tffs_find_id_None_iff all_set_conv_all_nth)
    thus ?thesis using None by simp
  next
    case (Some k)
    hence k: "k < length t2" "id_tag (t2 ! k) = word_of_int x"
        "\<forall>j<k. id_tag (t2 ! j) \<noteq> word_of_int x"
      by (simp_all add: tffs_find_id_Some_iff)
    have "\<forall>j<k. id_tag (t1 ! j) \<noteq> word_of_int x" using k n by simp
    hence "tffs_find_id t1 x = Some k" using k l n by (simp add: tffs_find_id_Some_iff)
    thus ?thesis using Some by simp
  qed
qed

subsection \<open>The loop\<close>

lemma tffs_parse_loop_exit:
  "\<not> unat (pos s) + 4 < unat sz \<Longrightarrow> tffs_parse_loop h sz s = Some (Inr s)"
  by (subst tffs_parse_loop.simps) (simp add: loop_guard_iff)

lemma tffs_parse_loop_step:
  "unat (pos s) + 4 < unat sz \<Longrightarrow>
   tffs_parse_loop h sz s =
     (case tffs_parse_iter h s of
        Undefined f \<Rightarrow> Some (Inl f)
      | Goto_End s' \<Rightarrow> Some (Inr s')
      | Continue s' \<Rightarrow> tffs_parse_loop h sz s')"
  by (subst tffs_parse_loop.simps) (simp add: loop_guard_iff)

lemma header_split:
  assumes "p + 4 \<le> length buf"
  shows "buf = take p buf @ buf ! p # buf ! (p + 1) # buf ! (p + 2) # buf ! (p + 3) # drop (p + 4) buf"
proof -
  have "drop p buf = buf ! p # drop (Suc p) buf" using assms by (simp add: Cons_nth_drop_Suc)
  moreover have "drop (Suc p) buf = buf ! (p + 1) # drop (p + 2) buf"
    using assms by (simp add: Cons_nth_drop_Suc)
  moreover have "drop (p + 2) buf = buf ! (p + 2) # drop (p + 3) buf"
    using assms Cons_nth_drop_Suc[of "p + 2" buf] by (simp add: numeral_3_eq_3)
  moreover have "drop (p + 3) buf = buf ! (p + 3) # drop (p + 4) buf"
    using assms Cons_nth_drop_Suc[of "p + 3" buf] by (simp add: numeral_Bit0 numeral_3_eq_3)
  ultimately have "drop p buf = buf ! p # buf ! (p + 1) # buf ! (p + 2) # buf ! (p + 3) # drop (p + 4) buf"
    by simp
  thus ?thesis using append_take_drop_id[of p buf] by simp
qed

lemma tffs_parse_iter_Continue_pos:
  assumes "tffs_parse_iter h s = Continue s'"
  shows "\<exists>l. pos s' = pos s + 4 + padded_len l"
  using assms unfolding tffs_parse_iter_def
  by (auto simp: Let_def split: if_splits prod.splits option.splits)

lemma tffs_parse_loop_terminates:
  assumes bound: "unat sz \<le> 4294901760"
  shows "\<exists>r. tffs_parse_loop h sz s = Some r"
proof (induction "unat sz - unat (pos s)" arbitrary: s rule: less_induct)
  case less
  show ?case
  proof (cases "unat (pos s) + 4 < unat sz")
    case False
    then show ?thesis by (simp add: tffs_parse_loop_exit)
  next
    case True
    show ?thesis
    proof (cases "tffs_parse_iter h s")
      case (Goto_End s')
      then show ?thesis using True by (simp add: tffs_parse_loop_step)
    next
      case (Undefined f)
      then show ?thesis using True by (simp add: tffs_parse_loop_step)
    next
      case (Continue s')
      then obtain l where l: "pos s' = pos s + 4 + padded_len l"
        using tffs_parse_iter_Continue_pos by blast
      have "unat (pos s) + 4 + unat (padded_len l) < 4294967296"
        using True bound unat_padded_len_le[of l] by simp
      hence "unat (pos s') = unat (pos s) + 4 + unat (padded_len l)"
        unfolding l by (rule unat_pos_advance)
      hence "unat sz - unat (pos s') < unat sz - unat (pos s)"
        using True by simp
      hence "\<exists>r. tffs_parse_loop h sz s' = Some r" by (rule less)
      then show ?thesis using True Continue by (simp add: tffs_parse_loop_step)
    qed
  qed
qed

lemma tffs_parse_iter_unregistered:
  assumes buf: "buffer s = pre @ t0 # t1 # l0 # l1 # rest"
    and p: "unat (pos s) = length pre"
    and t: "be16 t0 t1 \<noteq> 0xffff"
    and u: "tffs_find_id (table s) (uint (be16 t0 t1)) = None"
  shows "tffs_parse_iter h s =
    Continue (s\<lparr>buffer := pre @ host_bytes h t0 t1 @ host_bytes h l0 l1 @ rest,
                 pos := pos s + 4 + padded_len (be16 l0 l1)\<rparr>)"
proof -
  have s1: "swap_u16_at h (pre @ t0 # t1 # l0 # l1 # rest) (length pre)
      = (be16 t0 t1, pre @ host_bytes h t0 t1 @ l0 # l1 # rest)"
    by (simp add: swap_u16_at_append)
  have s2: "swap_u16_at h (pre @ host_bytes h t0 t1 @ l0 # l1 # rest) (Suc (Suc (length pre)))
      = (be16 l0 l1, pre @ host_bytes h t0 t1 @ host_bytes h l0 l1 @ rest)"
    using swap_u16_at_append[of h "pre @ host_bytes h t0 t1" l0 l1 rest] by simp
  show ?thesis
    unfolding tffs_parse_iter_def
    by (simp add: p s1 s2 Let_def buf t u)
qed

subsection \<open>A buffer of zero bytes longer than the cursor can count\<close>

lemma zero_buffer_iter:
  assumes "buffer s = replicate n 0" and "unat (pos s) + 4 \<le> n"
    and "tffs_find_id (table s) (uint (0 :: u16)) = None"
  shows "tffs_parse_iter h s = Continue (s\<lparr>pos := pos s + 4\<rparr>)"
proof -
  define p where "p = unat (pos s)"
  have "replicate n (0::u8) = replicate p 0 @ replicate 4 0 @ replicate (n - p - 4) 0"
    using assms(2) unfolding p_def by (simp flip: replicate_add)
  hence b: "buffer s = replicate p 0 @ 0 # 0 # 0 # 0 # replicate (n - p - 4) 0"
    using assms(1) by (simp add: numeral_eq_Suc)
  have hb: "host_bytes h 0 0 = [0, 0]" by (cases h) (simp_all add: host_bytes_def)
  have z: "be16 0 0 = 0" by (simp add: be16_def)
  have pl: "padded_len 0 = 0" by (simp add: padded_len_def)
  have "tffs_parse_iter h s = Continue (s\<lparr>buffer := replicate p 0 @ [0, 0] @ [0, 0] @ replicate (n - p - 4) 0, pos := pos s + 4\<rparr>)"
    using assms(3)
    by (subst tffs_parse_iter_unregistered[OF b]) (simp_all add: p_def z hb pl)
  moreover have "replicate p 0 @ [0, 0] @ [0, 0] @ replicate (n - p - 4) (0::u8) = buffer s"
    using b by simp
  ultimately show ?thesis by simp
qed

lemma zero_buffer_diverges:
  assumes "tffs_parse_loop h sz s = Some y"
  shows "\<not> (sz = 4294967300 \<and> buffer s = replicate 4294967300 0
            \<and> tffs_find_id (table s) (uint (0 :: u16)) = None)"
proof (rule tffs_parse_loop.raw_induct[where P = "\<lambda>h sz s y.
    \<not> (sz = 4294967300 \<and> buffer s = replicate 4294967300 0
            \<and> tffs_find_id (table s) (uint (0 :: u16)) = None)", OF _ assms])
  fix f :: "endianness \<Rightarrow> u64 \<Rightarrow> pstate \<Rightarrow> (fault + pstate) option"
  fix h sz s y
  assume IH: "\<And>h sz s y. f h sz s = Some y \<Longrightarrow>
      \<not> (sz = 4294967300 \<and> buffer s = replicate 4294967300 0
            \<and> tffs_find_id (table s) (uint (0 :: u16)) = None)"
  assume eq: "(if ucast (pos s) + 4 < sz
      then case tffs_parse_iter h s of Goto_End s' \<Rightarrow> Some (Inr s')
           | Continue s' \<Rightarrow> f h sz s'
           | Undefined f \<Rightarrow> Some (Inl f)
      else Some (Inr s)) = Some y"
  show "\<not> (sz = 4294967300 \<and> buffer s = replicate 4294967300 0
            \<and> tffs_find_id (table s) (uint (0 :: u16)) = None)"
  proof
    assume a: "sz = 4294967300 \<and> buffer s = replicate 4294967300 0
            \<and> tffs_find_id (table s) (uint (0 :: u16)) = None"
    have g: "ucast (pos s) + 4 < sz"
      using a unat_u32_bound[of "pos s"] by (simp add: loop_guard_iff)
    have "tffs_parse_iter h s = Continue (s\<lparr>pos := pos s + 4\<rparr>)"
      using a unat_u32_bound[of "pos s"] by (intro zero_buffer_iter[of s 4294967300]) simp_all
    hence "f h sz (s\<lparr>pos := pos s + 4\<rparr>) = Some y"
      using eq g by simp
    hence "\<not> (sz = 4294967300 \<and> buffer (s\<lparr>pos := pos s + 4\<rparr>) = replicate 4294967300 0
            \<and> tffs_find_id (table (s\<lparr>pos := pos s + 4\<rparr>)) (uint (0 :: u16)) = None)"
      by (rule IH)
    thus False using a by simp
  qed
qed

subsection \<open>Streams of records\<close>

lemma length_store_u16 [simp]: "length (store_u16 h v) = 2"
  by (cases h) (simp_all add: store_u16_def)

lemma length_tlv_bytes [simp]: "length (tlv_bytes h r) = 4 + length (tlv_payload r) + length (tlv_padding r)"
  by (simp add: tlv_bytes_def)

lemma store_u16_Big_Endian: "store_u16 Big_Endian v = [ucast (drop_bit 8 v), ucast v]"
  by (simp add: store_u16_def)

lemma be16_hi_lo: "be16 (ucast (drop_bit 8 v)) (ucast v) = v"
  by (rule be16_store_u16) (simp add: store_u16_def)

lemma host_bytes_hi_lo: "host_bytes h (ucast (drop_bit 8 v)) (ucast v) = store_u16 h v"
  using store_u16_be16[of h "ucast (drop_bit 8 v)" "ucast v"] by (simp add: be16_hi_lo)

lemma unat_word_of_nat_u16: "n < 65536 \<Longrightarrow> unat (word_of_nat n :: u16) = n"
  by (simp add: unat_of_nat)

lemma padded_len_payload:
  assumes "tlv_ok r"
  shows "unat (padded_len (word_of_nat (length (tlv_payload r)))) = length (tlv_payload r) + length (tlv_padding r)"
proof -
  define n where "n = length (tlv_payload r)"
  define k where "k = length (tlv_padding r)"
  have "n < 65536" "k < 4" "(n + k) mod 4 = 0" using assms by (simp_all add: tlv_ok_def n_def k_def)
  hence "(n + 3) div 4 * 4 = n + k" by presburger
  thus ?thesis using \<open>n < 65536\<close> by (simp add: unat_padded_len unat_word_of_nat_u16 n_def k_def)
qed

lemma map_id_tag_store_value [simp]: "map id_tag (store_value tbl off r) = map id_tag tbl"
  by (auto simp: store_value_def tffs_find_id_Some_iff map_update list_update_same_conv split: option.split)

lemma registered_store_value [simp]: "registered (store_value tbl off r) t = registered tbl t"
  unfolding registered_def using tffs_find_id_cong[OF map_id_tag_store_value] by simp

lemma tffs_find_id_store_value [simp]: "tffs_find_id (store_value tbl off r) x = tffs_find_id tbl x"
  using tffs_find_id_cong[OF map_id_tag_store_value] by simp

lemma word_of_nat_pos: "unat (p :: u32) = n \<Longrightarrow> p = word_of_nat n"
  by (metis of_nat_unat ucast_id)

lemma tffs_parse_iter_record:
  assumes ok: "tlv_ok r"
    and buf: "buffer s = pre @ tlv_bytes Big_Endian r @ post"
    and p: "unat (pos s) = length pre"
    and small: "length pre + length (tlv_bytes Big_Endian r) < 4294967296"
  shows "tffs_parse_iter h s =
    Continue \<lparr>buffer = pre @ tlv_bytes h r @ post,
              table = store_value (table s) (length pre) r,
              pos = pos s + 4 + padded_len (word_of_nat (length (tlv_payload r))),
              count = count s + (if registered (table s) (tlv_tag r) then 1 else 0)\<rparr>"
proof -
  define n where "n = length (tlv_payload r)"
  define t where "t = tlv_tag r"
  define l :: u16 where "l = word_of_nat n"
  have n: "n < 65536" and t: "t \<noteq> 0xffff" using ok by (simp_all add: tlv_ok_def n_def t_def)
  have ul: "unat l = n" using n by (simp add: l_def unat_word_of_nat_u16)
  have b: "buffer s = pre @ ucast (drop_bit 8 t) # ucast t # ucast (drop_bit 8 l) # ucast l
      # (tlv_payload r @ tlv_padding r @ post)"
    unfolding buf tlv_bytes_def by (simp add: store_u16_Big_Endian t_def l_def n_def)
  have sm: "length pre + 4 < 4294967296" using small by simp
  have ps: "pos s = word_of_nat (length pre)" using p by (rule word_of_nat_pos)
  have p4: "pos s + 4 = word_of_nat (length pre + 4)" unfolding ps by simp
  have hb: "pre @ host_bytes h (ucast (drop_bit 8 t)) (ucast t)
      @ host_bytes h (ucast (drop_bit 8 l)) (ucast l) @ tlv_payload r @ tlv_padding r @ post
      = pre @ tlv_bytes h r @ post"
    by (simp add: host_bytes_hi_lo tlv_bytes_def t_def l_def n_def)
  have uc: "(ucast l :: u32) = word_of_nat n"
    unfolding l_def by (metis ul l_def of_nat_unat)
  show ?thesis
  proof (cases "tffs_find_id (table s) (uint t)")
    case None
    thus ?thesis
      using t unfolding tffs_parse_iter_at[OF b p sm] be16_hi_lo Let_def hb
      by (simp add: registered_def store_value_def t_def l_def n_def)
  next
    case (Some i)
    thus ?thesis
      using t unfolding tffs_parse_iter_at[OF b p sm] be16_hi_lo Let_def hb
      by (simp add: registered_def store_value_def ul uc p4 flip: t_def n_def) (simp add: n_def l_def)
  qed
qed

lemma length_wire_Cons: "length (wire (r # rs)) = 4 + length (tlv_payload r) + length (tlv_padding r) + length (wire rs)"
  by (simp add: wire_def)

lemma tffs_parse_loop_scan_end:
  assumes e: "scan_end rest"
    and buf: "buffer s = pre @ rest"
    and p: "unat (pos s) = length pre"
    and sz: "length (buffer s) = unat sz"
  shows "tffs_parse_loop h sz s = Some (Inr (s\<lparr>buffer := pre @ scan_end_bytes h rest\<rparr>))"
proof (cases "length rest \<le> 4")
  case True
  hence "\<not> unat (pos s) + 4 < unat sz" using buf p sz by simp
  thus ?thesis using True buf by (simp add: tffs_parse_loop_exit scan_end_bytes_def)
next
  case False
  hence f: "rest ! 0 = 0xff" "rest ! 1 = 0xff" "4 < length rest" using e by (simp_all add: scan_end_def)
  hence g: "unat (pos s) + 4 < unat sz" using buf p sz by simp
  have "rest = rest ! 0 # rest ! 1 # rest ! 2 # rest ! 3 # drop 4 rest"
    using header_split[of 0 rest] f(3) by (simp add: numeral_2_eq_2)
  hence b: "buffer s = pre @ 0xff # 0xff # rest ! 2 # rest ! 3 # drop 4 rest"
    using buf f by simp
  have "tffs_parse_iter h s =
      Goto_End (s\<lparr>buffer := pre @ host_bytes h 0xff 0xff @ host_bytes h (rest ! 2) (rest ! 3) @ drop 4 rest\<rparr>)"
    unfolding tffs_parse_iter_def using p
      swap_u16_at_append[of h pre "0xff" "0xff" "rest ! 2 # rest ! 3 # drop 4 rest"]
      swap_u16_at_append[of h "pre @ host_bytes h 0xff 0xff" "rest ! 2" "rest ! 3" "drop 4 rest"]
    by (simp add: b Let_def be16_ffff)
  thus ?thesis using g False f by (simp add: tffs_parse_loop_step scan_end_bytes_def)
qed

lemma tffs_parse_loop_records:
  assumes ok: "\<forall>r\<in>set rs. tlv_ok r"
    and e: "scan_end rest"
    and buf: "buffer s = pre @ wire rs @ rest"
    and p: "unat (pos s) = length pre"
    and sz: "length (buffer s) = unat sz"
    and small: "length (buffer s) < 4294967296"
  shows "tffs_parse_loop h sz s =
    Some (Inr \<lparr>buffer = pre @ concat (map (tlv_bytes h) rs) @ scan_end_bytes h rest,
               table = store_values (table s) (length pre) rs,
               pos = word_of_nat (length pre + length (wire rs)),
               count = count s + word_of_nat (length (filter (\<lambda>r. registered (table s) (tlv_tag r)) rs))\<rparr>)"
  using ok buf p sz small
proof (induction rs arbitrary: s pre)
  case Nil
  have "pos s = word_of_nat (length pre)" using Nil.prems(3) by (rule word_of_nat_pos)
  thus ?case
    using tffs_parse_loop_scan_end[OF e, of s pre sz h] Nil.prems
    by (simp add: wire_def)
next
  case (Cons r rs)
  have okr: "tlv_ok r" using Cons.prems(1) by simp
  have b: "buffer s = pre @ tlv_bytes Big_Endian r @ (wire rs @ rest)"
    using Cons.prems(2) by (simp add: wire_def)
  have rest: "0 < length rest" using e by (auto simp: scan_end_def)
  have sm: "length pre + length (tlv_bytes Big_Endian r) < 4294967296"
    using Cons.prems(5) b by simp
  have g: "unat (pos s) + 4 < unat sz"
    using Cons.prems(3,4) b rest by (cases rest) simp_all
  let ?s' = "\<lparr>buffer = pre @ tlv_bytes h r @ (wire rs @ rest),
              table = store_value (table s) (length pre) r,
              pos = pos s + 4 + padded_len (word_of_nat (length (tlv_payload r))),
              count = count s + (if registered (table s) (tlv_tag r) then 1 else 0)\<rparr>"
  have it: "tffs_parse_iter h s = Continue ?s'"
    by (rule tffs_parse_iter_record[OF okr b Cons.prems(3) sm])
  have "unat (pos s) + 4 + unat (padded_len (word_of_nat (length (tlv_payload r)) :: u16)) < 4294967296"
    using sm Cons.prems(3) by (simp add: padded_len_payload[OF okr])
  hence up: "unat (pos ?s') = length (pre @ tlv_bytes h r)"
    using Cons.prems(3) by (simp add: unat_pos_advance padded_len_payload[OF okr])
  have lb: "length (buffer ?s') = length (buffer s)" using b by simp
  have IH: "tffs_parse_loop h sz ?s' =
    Some (Inr \<lparr>buffer = (pre @ tlv_bytes h r) @ concat (map (tlv_bytes h) rs) @ scan_end_bytes h rest,
               table = store_values (table ?s') (length (pre @ tlv_bytes h r)) rs,
               pos = word_of_nat (length (pre @ tlv_bytes h r) + length (wire rs)),
               count = count ?s' + word_of_nat (length (filter (\<lambda>r. registered (table ?s') (tlv_tag r)) rs))\<rparr>)"
  proof (rule Cons.IH)
    show "\<forall>r\<in>set rs. tlv_ok r" using Cons.prems(1) by simp
    show "buffer ?s' = (pre @ tlv_bytes h r) @ wire rs @ rest" by simp
    show "unat (pos ?s') = length (pre @ tlv_bytes h r)" by (rule up)
    show "length (buffer ?s') = unat sz" using lb Cons.prems(4) by simp
    show "length (buffer ?s') < 4294967296" using lb Cons.prems(5) by simp
  qed
  have "tffs_parse_loop h sz s = tffs_parse_loop h sz ?s'"
    using g it by (simp add: tffs_parse_loop_step)
  thus ?case unfolding IH
    by (simp add: length_wire_Cons add.assoc)
qed

subsection \<open>The table after a stream\<close>

lemma length_store_value [simp]: "length (store_value tbl off r) = length tbl"
  by (simp add: store_value_def split: option.split)

lemma length_store_values [simp]: "length (store_values tbl off rs) = length tbl"
  by (induction rs arbitrary: tbl off) simp_all

lemma map_id_tag_store_values [simp]: "map id_tag (store_values tbl off rs) = map id_tag tbl"
  by (induction rs arbitrary: tbl off) simp_all

lemma store_values_append:
  "store_values tbl off (as @ bs) = store_values (store_values tbl off as) (off + length (wire as)) bs"
  by (induction as arbitrary: tbl off) (simp_all add: wire_def add.assoc)

lemma tffs_find_id_store_values [simp]:
  "tffs_find_id (store_values tbl off rs) x = tffs_find_id tbl x"
  using tffs_find_id_cong[OF map_id_tag_store_values] by simp

lemma store_value_other:
  "tffs_find_id tbl (uint (tlv_tag r)) \<noteq> Some i \<Longrightarrow> store_value tbl off r ! i = tbl ! i"
  by (auto simp: store_value_def split: option.split)

lemma store_values_other:
  "\<forall>r\<in>set rs. tffs_find_id tbl (uint (tlv_tag r)) \<noteq> Some i \<Longrightarrow> store_values tbl off rs ! i = tbl ! i"
proof (induction rs arbitrary: tbl off)
  case Nil
  show ?case by simp
next
  case (Cons r rs)
  have "store_values (store_value tbl off r) (off + length (tlv_bytes Big_Endian r)) rs ! i
      = store_value tbl off r ! i"
    using Cons.prems by (intro Cons.IH) simp
  thus ?case using Cons.prems by (simp add: store_value_other)
qed

lemma store_value_hit:
  assumes "tffs_find_id tbl (uint (tlv_tag r)) = Some i"
  shows "store_value tbl off r ! i =
    (tbl ! i)\<lparr>len := word_of_nat (length (tlv_payload r)), offset := word_of_nat (off + 4),
              val := Some (tlv_payload r @ [0])\<rparr>"
proof -
  have "i < length tbl" using assms by (simp only: tffs_find_id_Some_iff)
  thus ?thesis using assms by (simp add: store_value_def)
qed

lemma ucast_u16_u32_inj: "(ucast (a :: u16) :: u32) = ucast (b :: u16) \<Longrightarrow> a = b"
proof -
  assume e: "(ucast a :: u32) = ucast b"
  have "unat (ucast a :: u32) = unat a" "unat (ucast b :: u32) = unat b"
    using unat_u16_bound[of a] unat_u16_bound[of b]
    by (simp_all add: unsigned_ucast_eq take_bit_nat_eq_self)
  hence "unat a = unat b" using e by simp
  thus "a = b" by (simp only: word_unat_eq_iff)
qed

lemma tffs_find_id_same_index:
  assumes "tffs_find_id tbl (uint (a :: u16)) = Some i" and "tffs_find_id tbl (uint (b :: u16)) = Some i"
  shows "a = b"
proof -
  have "id_tag (tbl ! i) = word_of_int (uint a)" "id_tag (tbl ! i) = word_of_int (uint b)"
    using assms by (simp_all only: tffs_find_id_Some_iff)
  hence "(ucast a :: u32) = ucast b" unfolding ucast_eq by simp
  thus ?thesis by (rule ucast_u16_u32_inj)
qed

lemma store_values_last:
  assumes f: "tffs_find_id tbl (uint (tlv_tag r)) = Some i"
    and later: "\<forall>c\<in>set cs. tlv_tag c \<noteq> tlv_tag r"
  shows "store_values tbl off (as @ r # cs) ! i =
    (store_values tbl off as ! i)\<lparr>len := word_of_nat (length (tlv_payload r)),
         offset := word_of_nat (off + length (wire as) + 4),
         val := Some (tlv_payload r @ [0])\<rparr>"
proof -
  let ?t = "store_values tbl off as"
  have f': "tffs_find_id ?t (uint (tlv_tag r)) = Some i" using f by simp
  have n: "\<forall>c\<in>set cs. tffs_find_id (store_value ?t (off + length (wire as)) r) (uint (tlv_tag c)) \<noteq> Some i"
  proof
    fix c assume c: "c \<in> set cs"
    show "tffs_find_id (store_value ?t (off + length (wire as)) r) (uint (tlv_tag c)) \<noteq> Some i"
    proof
      assume "tffs_find_id (store_value ?t (off + length (wire as)) r) (uint (tlv_tag c)) = Some i"
      hence "tffs_find_id tbl (uint (tlv_tag c)) = Some i" by simp
      hence "tlv_tag c = tlv_tag r" using f by (rule tffs_find_id_same_index)
      thus False using later c by simp
    qed
  qed
  have "store_values tbl off (as @ r # cs) ! i = store_value ?t (off + length (wire as)) r ! i"
    unfolding store_values_append using store_values_other[OF n] by simp
  thus ?thesis by (simp add: store_value_hit[OF f'])
qed

lemma name_store_value [simp]: "map name (store_value tbl off r) = map name tbl"
  by (auto simp: store_value_def tffs_find_id_Some_iff map_update list_update_same_conv split: option.split)

lemma name_store_values [simp]: "map name (store_values tbl off rs) = map name tbl"
  by (induction rs arbitrary: tbl off) simp_all

lemma name_store_values_nth: "i < length tbl \<Longrightarrow> name (store_values tbl off rs ! i) = name (tbl ! i)"
proof -
  assume i: "i < length tbl"
  have "i < length (store_values tbl off rs)" using i by simp
  hence "name (store_values tbl off rs ! i) = map name (store_values tbl off rs) ! i"
    by (simp only: nth_map)
  also have "\<dots> = map name tbl ! i" by (simp only: name_store_values)
  also have "\<dots> = name (tbl ! i)" using i by simp
  finally show ?thesis .
qed

lemma tffs_parse_stream:
  assumes ok: "\<forall>r\<in>set rs. tlv_ok r"
    and e: "scan_end rest"
    and buf: "buf = wire rs @ rest"
    and sz: "length buf = unat sz"
    and small: "length buf < 4294967296"
  shows "tffs_parse h sz tbl buf =
    Some (Inr \<lparr>buffer = concat (map (tlv_bytes h) rs) @ scan_end_bytes h rest,
               table = store_values tbl 0 rs,
               pos = word_of_nat (length (wire rs)),
               count = word_of_nat (length (filter (\<lambda>r. registered tbl (tlv_tag r)) rs))\<rparr>)"
  unfolding tffs_parse_def
  using tffs_parse_loop_records[OF ok e, of "\<lparr>buffer = buf, table = tbl, pos = 0, count = 0\<rparr>" "[]" sz h]
    buf sz small
  by simp

lemma tffs_find_id_not_later:
  assumes "i < j" and "id_tag (tbl ! i) = id_tag (tbl ! j)"
  shows "tffs_find_id tbl x \<noteq> Some j"
proof
  assume "tffs_find_id tbl x = Some j"
  hence "id_tag (tbl ! j) = word_of_int x" "\<forall>k<j. id_tag (tbl ! k) \<noteq> word_of_int x"
    unfolding tffs_find_id_Some_iff by blast+
  thus False using assms by metis
qed

subsection \<open>The entries that hold a value\<close>

lemma val_store_value:
  assumes "i < length tbl"
  shows "val (store_value tbl off r ! i) \<noteq> None \<longleftrightarrow>
     val (tbl ! i) \<noteq> None \<or> tffs_find_id tbl (uint (tlv_tag r)) = Some i"
proof (cases "tffs_find_id tbl (uint (tlv_tag r)) = Some i")
  case True
  thus ?thesis by (simp add: store_value_hit)
next
  case False
  thus ?thesis by (simp add: store_value_other)
qed

lemma val_store_values:
  assumes "i < length tbl"
  shows "val (store_values tbl off rs ! i) \<noteq> None \<longleftrightarrow>
     val (tbl ! i) \<noteq> None \<or> (\<exists>r\<in>set rs. tffs_find_id tbl (uint (tlv_tag r)) = Some i)"
  using assms
proof (induction rs arbitrary: tbl off)
  case Nil
  show ?case by simp
next
  case (Cons r rs)
  have "i < length (store_value tbl off r)" using Cons.prems by simp
  hence "val (store_values (store_value tbl off r) (off + length (tlv_bytes Big_Endian r)) rs ! i) \<noteq> None
      \<longleftrightarrow> val (store_value tbl off r ! i) \<noteq> None \<or>
          (\<exists>x\<in>set rs. tffs_find_id (store_value tbl off r) (uint (tlv_tag x)) = Some i)"
    by (rule Cons.IH)
  thus ?case using val_store_value[OF Cons.prems, of off r] by auto
qed

lemma valued_entries_eq:
  assumes empty: "\<forall>e\<in>set tbl. val e = None"
  shows "{i. i < length (store_values tbl off rs) \<and> val (store_values tbl off rs ! i) \<noteq> None}
      = {i. \<exists>r\<in>set rs. tffs_find_id tbl (uint (tlv_tag r)) = Some i}" (is "?A = ?B")
  proof (intro set_eqI iffI)
    fix i assume "i \<in> ?A"
    hence i: "i < length tbl" and v: "val (store_values tbl off rs ! i) \<noteq> None" by simp_all
    have "val (tbl ! i) = None" using empty i by simp
    thus "i \<in> ?B" using v val_store_values[OF i, of off rs] by simp
  next
    fix i assume "i \<in> ?B"
    then obtain r where r: "r \<in> set rs" "tffs_find_id tbl (uint (tlv_tag r)) = Some i" by blast
    hence i: "i < length tbl" unfolding tffs_find_id_Some_iff by blast
    thus "i \<in> ?A" using r val_store_values[OF i, of off rs] by auto
  qed

lemma tffs_find_id_inj_on_registered:
  fixes tbl :: "tffs_id list"
  shows "inj_on (\<lambda>t. the (tffs_find_id tbl (uint t))) (tlv_tag ` {r \<in> set rs. registered tbl (tlv_tag r)})"
proof (rule inj_onI)
  fix a b
  assume a: "a \<in> tlv_tag ` {r \<in> set rs. registered tbl (tlv_tag r)}"
    and b: "b \<in> tlv_tag ` {r \<in> set rs. registered tbl (tlv_tag r)}"
    and eq: "the (tffs_find_id tbl (uint a)) = the (tffs_find_id tbl (uint b))"
  have "registered tbl a" using a by blast
  then obtain i where i: "tffs_find_id tbl (uint a) = Some i" unfolding registered_def by blast
  have "registered tbl b" using b by blast
  then obtain j where j: "tffs_find_id tbl (uint b) = Some j" unfolding registered_def by blast
  have "i = j" using eq unfolding i j by simp
  thus "a = b" using i j tffs_find_id_same_index by blast
qed

lemma matched_indices_image:
  fixes tbl :: "tffs_id list"
  shows "{i. \<exists>r\<in>set rs. tffs_find_id tbl (uint (tlv_tag r)) = Some i}
    = (\<lambda>t. the (tffs_find_id tbl (uint t))) ` (tlv_tag ` {r \<in> set rs. registered tbl (tlv_tag r)})"
  (is "?B = ?f ` ?T")
proof (intro set_eqI iffI)
  fix i assume "i \<in> ?B"
  then obtain r where r: "r \<in> set rs" "tffs_find_id tbl (uint (tlv_tag r)) = Some i" by blast
  hence "tlv_tag r \<in> ?T" by (simp add: registered_def)
  moreover have "i = ?f (tlv_tag r)" unfolding r(2) by simp
  ultimately show "i \<in> ?f ` ?T" by (rule rev_image_eqI)
next
  fix i assume "i \<in> ?f ` ?T"
  then obtain t where t: "t \<in> ?T" "i = ?f t" by blast
  then obtain r where r: "r \<in> set rs" "registered tbl (tlv_tag r)" "t = tlv_tag r" by blast
  then obtain k where k: "tffs_find_id tbl (uint (tlv_tag r)) = Some k"
    unfolding registered_def by blast
  hence "i = k" using t(2) r(3) by simp
  thus "i \<in> ?B" using k r(1) by blast
qed

lemma valued_entries_card:
  assumes empty: "\<forall>e\<in>set tbl. val e = None"
  shows "length (filter (\<lambda>e. val e \<noteq> None) (store_values tbl off rs))
     = card (set (map tlv_tag (filter (\<lambda>r. registered tbl (tlv_tag r)) rs)))"
proof -
  let ?T = "tlv_tag ` {r \<in> set rs. registered tbl (tlv_tag r)}"
  let ?f = "\<lambda>t. the (tffs_find_id tbl (uint t))"
  have "length (filter (\<lambda>e. val e \<noteq> None) (store_values tbl off rs))
      = card {i. i < length (store_values tbl off rs) \<and> val (store_values tbl off rs ! i) \<noteq> None}"
    by (simp only: length_filter_conv_card)
  also have "\<dots> = card {i. \<exists>r\<in>set rs. tffs_find_id tbl (uint (tlv_tag r)) = Some i}"
    by (simp only: valued_entries_eq[OF empty])
  also have "\<dots> = card (?f ` ?T)" by (simp only: matched_indices_image)
  also have "\<dots> = card ?T" by (rule card_image) (rule tffs_find_id_inj_on_registered)
  also have "?T = set (map tlv_tag (filter (\<lambda>r. registered tbl (tlv_tag r)) rs))" by auto
  finally show ?thesis .
qed

lemma length_le_length_wire: "length rs \<le> length (wire rs)"
  by (induction rs) (simp_all add: wire_def)

subsection \<open>Two tables with the same tags\<close>

lemma store_values_matched:
  assumes ids: "map id_tag t1 = map id_tag t2"
    and m: "\<exists>r\<in>set rs. tffs_find_id t1 (uint (tlv_tag r)) = Some i"
  shows "val (store_values t1 off rs ! i) = val (store_values t2 off rs ! i) \<and>
         len (store_values t1 off rs ! i) = len (store_values t2 off rs ! i) \<and>
         offset (store_values t1 off rs ! i) = offset (store_values t2 off rs ! i)"
proof -
  obtain ys x zs where s: "rs = ys @ x # zs"
    and x: "tffs_find_id t1 (uint (tlv_tag x)) = Some i"
    and z: "\<forall>z\<in>set zs. tffs_find_id t1 (uint (tlv_tag z)) \<noteq> Some i"
    using split_list_last_prop[OF m] by blast
  have later: "\<forall>z\<in>set zs. tlv_tag z \<noteq> tlv_tag x"
  proof
    fix c assume "c \<in> set zs"
    hence "tffs_find_id t1 (uint (tlv_tag c)) \<noteq> Some i" using z by blast
    thus "tlv_tag c \<noteq> tlv_tag x" using x by metis
  qed
  have x2: "tffs_find_id t2 (uint (tlv_tag x)) = Some i"
    using x tffs_find_id_cong[OF ids] by simp
  show ?thesis
    unfolding s store_values_last[OF x later] store_values_last[OF x2 later] by simp
qed

lemma store_values_unmatched:
  assumes ids: "map id_tag t1 = map id_tag t2"
    and m: "\<not> (\<exists>r\<in>set rs. tffs_find_id t1 (uint (tlv_tag r)) = Some i)"
  shows "store_values t1 off rs ! i = t1 ! i \<and> store_values t2 off rs ! i = t2 ! i"
proof -
  have 1: "\<forall>r\<in>set rs. tffs_find_id t1 (uint (tlv_tag r)) \<noteq> Some i" using m by blast
  hence 2: "\<forall>r\<in>set rs. tffs_find_id t2 (uint (tlv_tag r)) \<noteq> Some i"
    using tffs_find_id_cong[OF ids] by simp
  show ?thesis using store_values_other[OF 1] store_values_other[OF 2] by simp
qed

lemma registered_cong:
  "map id_tag t1 = map id_tag t2 \<Longrightarrow> registered t1 = registered t2"
  unfolding registered_def fun_eq_iff using tffs_find_id_cong[of t1 t2] by simp

subsection \<open>Concrete streams\<close>

lemma wire_example:
  "wire [\<lparr>tlv_tag = 0x0100, tlv_payload = [65], tlv_padding = [0, 0, 0]\<rparr>,
         \<lparr>tlv_tag = 0x0100, tlv_payload = [66], tlv_padding = [0, 0, 0]\<rparr>]
   = [1, 0, 0, 1, 65, 0, 0, 0, 1, 0, 0, 1, 66, 0, 0, 0]"
  by (simp add: wire_def tlv_bytes_def store_u16_def)

lemma wire_example_2:
  "wire [\<lparr>tlv_tag = 0x0100, tlv_payload = [65], tlv_padding = [0, 0, 0]\<rparr>,
         \<lparr>tlv_tag = 0x0005, tlv_payload = [7, 8], tlv_padding = [0, 0]\<rparr>]
   = [1, 0, 0, 1, 65, 0, 0, 0, 0, 5, 0, 2, 7, 8, 0, 0]"
  by (simp add: wire_def tlv_bytes_def store_u16_def)

lemma host_example_2:
  "concat (map (tlv_bytes Little_Endian)
        [\<lparr>tlv_tag = 0x0100, tlv_payload = [65], tlv_padding = [0, 0, 0]\<rparr>,
         \<lparr>tlv_tag = 0x0005, tlv_payload = [7, 8], tlv_padding = [0, 0]\<rparr>])
   = [0, 1, 1, 0, 65, 0, 0, 0, 5, 0, 2, 0, 7, 8, 0, 0]"
  by code_simp




lemma wire_example_4:
  "wire [\<lparr>tlv_tag = 0x01A3, tlv_payload = [0x34, 0x32], tlv_padding = [0, 0]\<rparr>]
   = [0x01, 0xA3, 0x00, 0x02, 0x34, 0x32, 0, 0]"
  by code_simp

lemma wire_example_5:
  "wire [\<lparr>tlv_tag = 0x0100, tlv_payload = [0x41], tlv_padding = [0, 0, 0]\<rparr>,
         \<lparr>tlv_tag = 0x0005, tlv_payload = [7, 8], tlv_padding = [0, 0]\<rparr>,
         \<lparr>tlv_tag = 0x0100, tlv_payload = [0x42], tlv_padding = [0, 0, 0]\<rparr>]
   = [0x01, 0x00, 0x00, 0x01, 0x41, 0, 0, 0, 0x00, 0x05, 0x00, 0x02, 7, 8, 0, 0,
      0x01, 0x00, 0x00, 0x01, 0x42, 0, 0, 0]"
  by code_simp

lemma registered_example_5:
  "filter (\<lambda>r. registered ids (tlv_tag r))
        [\<lparr>tlv_tag = 0x0100, tlv_payload = [0x41], tlv_padding = [0, 0, 0]\<rparr>,
         \<lparr>tlv_tag = 0x0005, tlv_payload = [7, 8], tlv_padding = [0, 0]\<rparr>,
         \<lparr>tlv_tag = 0x0100, tlv_payload = [0x42], tlv_padding = [0, 0, 0]\<rparr>]
   = [\<lparr>tlv_tag = 0x0100, tlv_payload = [0x41], tlv_padding = [0, 0, 0]\<rparr>,
      \<lparr>tlv_tag = 0x0100, tlv_payload = [0x42], tlv_padding = [0, 0, 0]\<rparr>]"
  by code_simp

lemma ids_no_value: "\<forall>e\<in>set ids. val e = None"
  by (simp add: ids_def init_id_def)

lemma wire_example_7:
  "wire [\<lparr>tlv_tag = 0x0101, tlv_payload = [0x41, 0x42, 0x43, 0x44], tlv_padding = []\<rparr>]
   = [0x01, 0x01, 0x00, 0x04, 0x41, 0x42, 0x43, 0x44]"
  by code_simp

lemma id_tag_example_7:
  "map id_tag ids = map id_tag (ids[0 := (ids ! 0)\<lparr>len := 1, offset := 4, val := Some [0x41, 0]\<rparr>])"
  by code_simp

section \<open>The claims\<close>

subsection \<open>C1: a payload that runs past the buffer\<close>




subsection \<open>C2: what the count counts\<close>

text \<open>
  Claim C2 says that the count returned is the number of registry entries that hold a
  value after the scan, so that two records with the same registered tag add one. The
  loop increments \<^verbatim>\<open>count\<close> at every record whose tag is found: for the buffer below,
  with two records of tag \<open>0x0100\<close>, the count is 2 and one entry holds a value.
\<close>

theorem tffs_parse_counts_records:
  "tffs_parse Little_Endian 21 ids
     [0x01, 0x00, 0x00, 0x01, 0x41, 0, 0, 0, 0x01, 0x00, 0x00, 0x01, 0x42, 0, 0, 0, 0xff, 0xff, 0, 0, 0]
     = Some (Inr \<lparr>buffer = [0x00, 0x01, 0x01, 0x00, 0x41, 0, 0, 0,
                           0x00, 0x01, 0x01, 0x00, 0x42, 0, 0, 0, 0xff, 0xff, 0, 0, 0],
                 table = ids[0 := (ids ! 0)\<lparr>len := 1, offset := 12, val := Some [0x42, 0]\<rparr>],
                 pos = 16, count = 2\<rparr>) \<and>
   length (filter (\<lambda>e. val e \<noteq> None)
     (ids[0 := (ids ! 0)\<lparr>len := 1, offset := 12, val := Some [0x42, 0]\<rparr>])) = 1"
  by code_simp

text \<open>
  Claim C2, amended. For a stream of well-formed records ended by the sentinel or the end of
  the buffer, decoded into a table that holds no value yet, the count returned is the number
  of records of the stream whose tag is registered: two records with the same registered tag
  add two. The number of entries that hold a value after the scan is the number of distinct
  registered tags among the records; it is at most the count, and equal to it exactly when
  no registered tag occurs in two records.
\<close>

theorem tffs_parse_count:
  assumes "\<forall>r\<in>set rs. tlv_ok r"
    and "scan_end rest"
    and "buf = wire rs @ rest"
    and "length buf = unat sz"
    and "length buf < 4294967296"
    and "\<forall>e\<in>set tbl. val e = None"
  shows "\<exists>s'. tffs_parse h sz tbl buf = Some (Inr s') \<and>
           unat (count s') = length (filter (\<lambda>r. registered tbl (tlv_tag r)) rs) \<and>
           length (filter (\<lambda>e. val e \<noteq> None) (table s'))
             = card (set (map tlv_tag (filter (\<lambda>r. registered tbl (tlv_tag r)) rs))) \<and>
           length (filter (\<lambda>e. val e \<noteq> None) (table s')) \<le> unat (count s') \<and>
           (length (filter (\<lambda>e. val e \<noteq> None) (table s')) = unat (count s')
             \<longleftrightarrow> distinct (map tlv_tag (filter (\<lambda>r. registered tbl (tlv_tag r)) rs)))"
proof -
  let ?m = "filter (\<lambda>r. registered tbl (tlv_tag r)) rs"
  have "length ?m \<le> length rs" by simp
  also have "\<dots> \<le> length (wire rs)" by (rule length_le_length_wire)
  also have "\<dots> \<le> length buf" using assms(3) by simp
  finally have "length ?m < 4294967296" using assms(5) by simp
  hence c: "unat (word_of_nat (length ?m) :: u32) = length ?m" by (simp add: unat_of_nat)
  have v: "length (filter (\<lambda>e. val e \<noteq> None) (store_values tbl 0 rs)) = card (set (map tlv_tag ?m))"
    by (rule valued_entries_card[OF assms(6)])
  have le: "card (set (map tlv_tag ?m)) \<le> length ?m"
    using card_length[of "map tlv_tag ?m"] by simp
  have d: "card (set (map tlv_tag ?m)) = length ?m \<longleftrightarrow> distinct (map tlv_tag ?m)"
    using card_distinct[of "map tlv_tag ?m"] distinct_card[of "map tlv_tag ?m"] by auto
  show ?thesis
    unfolding tffs_parse_stream[OF assms(1,2,3,4,5)]
    using c v le d by simp
qed

theorem tffs_parse_count_witness:
  "\<exists>s'. tffs_parse Little_Endian 29 ids
           [0x01, 0x00, 0x00, 0x01, 0x41, 0, 0, 0, 0x00, 0x05, 0x00, 0x02, 7, 8, 0, 0,
            0x01, 0x00, 0x00, 0x01, 0x42, 0, 0, 0, 0xff, 0xff, 0, 0, 0] = Some (Inr s') \<and>
         unat (count s') = 2 \<and> length (filter (\<lambda>e. val e \<noteq> None) (table s')) = 1"
proof -
  let ?r1 = "\<lparr>tlv_tag = 0x0100, tlv_payload = [0x41], tlv_padding = [0, 0, 0]\<rparr>"
  let ?r2 = "\<lparr>tlv_tag = 0x0005, tlv_payload = [7, 8], tlv_padding = [0, 0]\<rparr>"
  let ?r3 = "\<lparr>tlv_tag = 0x0100, tlv_payload = [0x42], tlv_padding = [0, 0, 0]\<rparr>"
  have ok: "\<forall>r\<in>set [?r1, ?r2, ?r3]. tlv_ok r" by (simp add: tlv_ok_def)
  have e: "scan_end [0xff, 0xff, 0, 0, 0]" by (simp add: scan_end_def)
  have b: "[0x01, 0x00, 0x00, 0x01, 0x41, 0, 0, 0, 0x00, 0x05, 0x00, 0x02, 7, 8, 0, 0,
            0x01, 0x00, 0x00, 0x01, 0x42, 0, 0, 0, 0xff, 0xff, 0, 0, 0]
      = wire [?r1, ?r2, ?r3] @ [0xff, 0xff, 0, 0, (0::u8)]"
    by (simp add: wire_example_5)
  have l: "length [0x01, 0x00, 0x00, 0x01, 0x41, 0, 0, 0, 0x00, 0x05, 0x00, 0x02, 7, 8, 0, 0,
            0x01, 0x00, 0x00, 0x01, 0x42, 0, 0, 0, 0xff, 0xff, 0, 0, (0::u8)] = unat (29 :: u64)"
    by simp
  have sm: "length [0x01, 0x00, 0x00, 0x01, 0x41, 0, 0, 0, 0x00, 0x05, 0x00, 0x02, 7, 8, 0, 0,
            0x01, 0x00, 0x00, 0x01, 0x42, 0, 0, 0, 0xff, 0xff, 0, 0, (0::u8)] < 4294967296"
    by simp
  obtain s' where s': "tffs_parse Little_Endian 29 ids
           [0x01, 0x00, 0x00, 0x01, 0x41, 0, 0, 0, 0x00, 0x05, 0x00, 0x02, 7, 8, 0, 0,
            0x01, 0x00, 0x00, 0x01, 0x42, 0, 0, 0, 0xff, 0xff, 0, 0, 0] = Some (Inr s')"
      "unat (count s') = length [?r1, ?r3]"
      "length (filter (\<lambda>e. val e \<noteq> None) (table s')) = card (set (map tlv_tag [?r1, ?r3]))"
    using tffs_parse_count[OF ok e b l sm ids_no_value, of Little_Endian]
    unfolding registered_example_5 by blast
  have "unat (count s') = 2" using s'(2) by simp
  moreover have "length (filter (\<lambda>e. val e \<noteq> None) (table s')) = 1" using s'(3) by simp
  ultimately show ?thesis using s'(1) by blast
qed

subsection \<open>C3: the last record of a tag wins\<close>

text \<open>
  Claim C3. Let the buffer hold a stream of well-formed records, ended by the sentinel or
  by the end of the buffer, in which two records \<open>r1\<close> and, later, \<open>r2\<close> carry the same
  registered tag, no record after \<open>r2\<close> carrying it. After \<^verbatim>\<open>tffs_parse\<close> the entry of
  the table that the lookup finds for the tag holds the payload of \<open>r2\<close>: \<^verbatim>\<open>val\<close> points
  to the payload followed by the terminating zero byte and \<^verbatim>\<open>len\<close> is the length of the
  payload. The value stored for \<open>r1\<close> has been overwritten: the pass of the loop at \<open>r2\<close>
  stores the payload of \<open>r2\<close> in that entry whatever the entry held before. The buffer is
  one a 32-bit cursor can address (shorter than \<open>2^32\<close> bytes).
\<close>

theorem tffs_parse_last_write_wins:
  assumes "\<forall>r\<in>set (as @ r1 # bs @ r2 # cs). tlv_ok r"
    and "tlv_tag r1 = tlv_tag r2"
    and "tffs_find_id tbl (uint (tlv_tag r2)) = Some i"
    and "\<forall>c\<in>set cs. tlv_tag c \<noteq> tlv_tag r2"
    and "scan_end rest"
    and "buf = wire (as @ r1 # bs @ r2 # cs) @ rest"
    and "length buf = unat sz"
    and "length buf < 4294967296"
  shows "(\<exists>s'. tffs_parse h sz tbl buf = Some (Inr s') \<and>
            val (table s' ! i) = Some (tlv_payload r2 @ [0]) \<and>
            len (table s' ! i) = word_of_nat (length (tlv_payload r2)) \<and>
            unat (len (table s' ! i)) = length (tlv_payload r2) \<and>
            name (table s' ! i) = name (tbl ! i)) \<and>
         (buffer s = pre @ tlv_bytes Big_Endian r2 @ post \<and> unat (pos s) = length pre \<and>
          length (buffer s) < 4294967296 \<and> table s = tbl
          \<longrightarrow> (\<exists>s'. tffs_parse_iter h s = Continue s' \<and>
                    val (table s' ! i) = Some (tlv_payload r2 @ [0]) \<and>
                    len (table s' ! i) = word_of_nat (length (tlv_payload r2))))"
proof (intro conjI impI)
  let ?rs = "as @ r1 # bs @ r2 # cs"
  have i: "i < length tbl" using assms(3) unfolding tffs_find_id_Some_iff by blast
  have ok2: "tlv_ok r2" using assms(1) by simp
  hence n: "length (tlv_payload r2) < 65536" by (simp add: tlv_ok_def)
  have e: "store_values tbl 0 ?rs ! i =
      (store_values tbl 0 (as @ r1 # bs) ! i)\<lparr>len := word_of_nat (length (tlv_payload r2)),
         offset := word_of_nat (0 + length (wire (as @ r1 # bs)) + 4),
         val := Some (tlv_payload r2 @ [0])\<rparr>"
    using store_values_last[OF assms(3,4), of 0 "as @ r1 # bs"] by simp
  have u: "unat (word_of_nat (length (tlv_payload r2)) :: u32) = length (tlv_payload r2)"
    using n by (simp add: unat_of_nat)
  show "\<exists>s'. tffs_parse h sz tbl buf = Some (Inr s') \<and>
            val (table s' ! i) = Some (tlv_payload r2 @ [0]) \<and>
            len (table s' ! i) = word_of_nat (length (tlv_payload r2)) \<and>
            unat (len (table s' ! i)) = length (tlv_payload r2) \<and>
            name (table s' ! i) = name (tbl ! i)"
    unfolding tffs_parse_stream[OF assms(1,5,6,7,8)]
    using i u by (simp add: e name_store_values_nth)
  assume a: "buffer s = pre @ tlv_bytes Big_Endian r2 @ post \<and> unat (pos s) = length pre \<and>
          length (buffer s) < 4294967296 \<and> table s = tbl"
  hence b: "buffer s = pre @ tlv_bytes Big_Endian r2 @ post" and p: "unat (pos s) = length pre"
    and t: "table s = tbl" by blast+
  have "length (buffer s) < 4294967296" using a by blast
  hence sm: "length pre + length (tlv_bytes Big_Endian r2) < 4294967296" unfolding b by simp
  show "\<exists>s'. tffs_parse_iter h s = Continue s' \<and>
                    val (table s' ! i) = Some (tlv_payload r2 @ [0]) \<and>
                    len (table s' ! i) = word_of_nat (length (tlv_payload r2))"
    unfolding tffs_parse_iter_record[OF ok2 b p sm] t
    by (simp add: store_value_hit[OF assms(3)])
qed

theorem tffs_parse_last_write_wins_witness:
  "\<exists>s'. tffs_parse Little_Endian 21 ids
           [1, 0, 0, 1, 65, 0, 0, 0, 1, 0, 0, 1, 66, 0, 0, 0, 0xff, 0xff, 0, 0, 0] = Some (Inr s') \<and>
         val (table s' ! 0) = Some [66, 0] \<and> len (table s' ! 0) = 1 \<and>
         name (table s' ! 0) = ''hw_revision''"
proof -
  let ?r1 = "\<lparr>tlv_tag = 0x0100, tlv_payload = [65], tlv_padding = [0, 0, 0]\<rparr>"
  let ?r2 = "\<lparr>tlv_tag = 0x0100, tlv_payload = [66], tlv_padding = [0, 0, 0]\<rparr>"
  have f: "tffs_find_id ids 256 = Some 0" by code_simp
  have n: "name (ids ! 0) = ''hw_revision''" by code_simp
  show ?thesis
    using tffs_parse_last_write_wins[of "[]" ?r1 "[]" ?r2 "[]" ids 0 "[0xff, 0xff, 0, 0, 0]"
        "[1, 0, 0, 1, 65, 0, 0, 0, 1, 0, 0, 1, 66, 0, 0, 0, 0xff, 0xff, 0, 0, 0]" 21 Little_Endian,
        THEN conjunct1]
    by (simp add: f n tlv_ok_def scan_end_def wire_example) blast
qed

subsection \<open>C4: the advance of the cursor, and termination\<close>

text \<open>
  Claim C4 says that the cursor advances by \<open>4 + ((L + 3) & ~3)\<close> for every record
  scanned and that \<^verbatim>\<open>tffs_parse\<close> always terminates. The cursor \<^verbatim>\<open>pos\<close> is a
  \<^verbatim>\<open>uint32_t\<close> and the bound \<^verbatim>\<open>tffs_size\<close> an \<^verbatim>\<open>unsigned long\<close>: the advance is
  an addition modulo \<open>2^32\<close>. For a declared length of \<open>2^32 + 4\<close> and a buffer of that many
  zero bytes (records of tag 0 and length 0, no sentinel) the condition of the loop holds at
  every value of the cursor, which wraps around to 0, and the loop never ends.
\<close>

theorem tffs_parse_zero_buffer_diverges:
  "tffs_parse Little_Endian 4294967300 ids (replicate 4294967300 0) = None"
proof (cases "tffs_parse Little_Endian 4294967300 ids (replicate 4294967300 0)")
  case (Some y)
  have "tffs_find_id ids (uint (0 :: u16)) = None" by code_simp
  thus ?thesis
    using zero_buffer_diverges[OF Some[unfolded tffs_parse_def]] by simp
qed simp

text \<open>
  Claim C4, amended. For every record scanned whose tag is not the sentinel (the tag
  unregistered, or registered with the payload inside the buffer), one pass of the loop
  moves the 32-bit cursor by \<open>4 + ((L + 3) & ~3)\<close>, \<open>L\<close> the declared length, so the next
  header is read there. \<open>(L + 3) & ~3\<close> is \<open>L\<close> rounded up to a multiple of 4. When the
  declared buffer length is at most \<open>2^32 - 65536\<close> the addition does not wrap, each pass
  moves the cursor at least 4 bytes towards the bound, and the loop terminates from every
  state, so \<^verbatim>\<open>tffs_parse\<close> terminates.
\<close>

theorem tffs_parse_advance_terminates:
  "(buffer s = pre @ t0 # t1 # l0 # l1 # rest \<and> unat (pos s) = length pre \<and>
    be16 t0 t1 \<noteq> 0xffff \<and>
    (tffs_find_id (table s) (uint (be16 t0 t1)) = None \<or>
     length pre + 4 < 4294967296 \<and> unat (be16 l0 l1) \<le> length rest)
    \<longrightarrow> (\<exists>s'. tffs_parse_iter h s = Continue s' \<and>
               pos s' = pos s + 4 + padded_len (be16 l0 l1))) \<and>
   unat (padded_len l) = (unat l + 3) div 4 * 4 \<and>
   (unat sz \<le> 4294901760 \<and> unat (pos s) + 4 < unat sz
    \<longrightarrow> unat (pos s + 4 + padded_len l) = unat (pos s) + 4 + (unat l + 3) div 4 * 4) \<and>
   (unat sz \<le> 4294901760
    \<longrightarrow> (\<exists>r. tffs_parse_loop h sz s = Some r) \<and> (\<exists>r. tffs_parse h sz tbl buf = Some r))"
proof (intro conjI impI)
  assume a: "buffer s = pre @ t0 # t1 # l0 # l1 # rest \<and> unat (pos s) = length pre \<and>
    be16 t0 t1 \<noteq> 0xffff \<and>
    (tffs_find_id (table s) (uint (be16 t0 t1)) = None \<or>
     length pre + 4 < 4294967296 \<and> unat (be16 l0 l1) \<le> length rest)"
  hence b: "buffer s = pre @ t0 # t1 # l0 # l1 # rest" and p: "unat (pos s) = length pre"
    and t: "be16 t0 t1 \<noteq> 0xffff" by simp_all
  show "\<exists>s'. tffs_parse_iter h s = Continue s' \<and> pos s' = pos s + 4 + padded_len (be16 l0 l1)"
  proof (cases "tffs_find_id (table s) (uint (be16 t0 t1))")
    case None
    show ?thesis by (simp add: tffs_parse_iter_unregistered[OF b p t None])
  next
    case (Some i)
    hence "length pre + 4 < 4294967296" "unat (be16 l0 l1) \<le> length rest" using a by simp_all
    thus ?thesis using Some t by (simp add: tffs_parse_iter_at[OF b p])
  qed
next
  show "unat (padded_len l) = (unat l + 3) div 4 * 4" by (rule unat_padded_len)
next
  assume "unat sz \<le> 4294901760 \<and> unat (pos s) + 4 < unat sz"
  hence "unat (pos s) + 4 + unat (padded_len l) < 4294967296"
    using unat_padded_len_le[of l] by simp
  thus "unat (pos s + 4 + padded_len l) = unat (pos s) + 4 + (unat l + 3) div 4 * 4"
    by (simp add: unat_pos_advance unat_padded_len)
next
  assume "unat sz \<le> 4294901760"
  thus "\<exists>r. tffs_parse_loop h sz s = Some r" by (rule tffs_parse_loop_terminates)
next
  assume "unat sz \<le> 4294901760"
  thus "\<exists>r. tffs_parse h sz tbl buf = Some r"
    unfolding tffs_parse_def by (rule tffs_parse_loop_terminates)
qed

theorem tffs_parse_advance_terminates_witness:
  "(\<exists>s'. tffs_parse_iter Big_Endian
             \<lparr>buffer = [0, 5, 0, 3, 1, 2, 3, 0, 0xff, 0xff, 0, 0, 0], table = ids, pos = 0, count = 0\<rparr>
           = Continue s' \<and> pos s' = 8) \<and>
   unat (padded_len 3) = 4 \<and>
   (\<exists>r. tffs_parse Big_Endian 13 ids [0, 5, 0, 3, 1, 2, 3, 0, 0xff, 0xff, 0, 0, 0] = Some r)"
proof -
  let ?s = "\<lparr>buffer = [0, 5, 0, 3, 1, 2, 3, 0, 0xff, 0xff, 0, 0, 0], table = ids, pos = 0, count = 0\<rparr>"
  have f: "tffs_find_id ids (uint (5 :: u16)) = None" by code_simp
  have b: "be16 0 5 = 5" "be16 0 3 = 3" by (simp_all add: be16_def)
  have pl: "padded_len 3 = 4" by (simp add: padded_len_def)
  show ?thesis
    using tffs_parse_advance_terminates[of ?s "[]" 0 5 0 3 "[1, 2, 3, 0, 0xff, 0xff, 0, 0, 0]"
        Big_Endian 3 13 ids "[0, 5, 0, 3, 1, 2, 3, 0, 0xff, 0xff, 0, 0, 0]"]
    by (simp add: f b pl)
qed

subsection \<open>C5: the sentinel ends the scan\<close>

text \<open>
  Claim C5. When the first header of the buffer is readable (\<open>4 < tffs_size\<close>, and the
  buffer holds its 4 bytes) and carries the tag \<open>0xFFFF\<close>, \<^verbatim>\<open>tffs_parse\<close> stops at once:
  the cursor stays at the header (the record is not consumed), the count is 0, the table is
  as before, and the run ends without fault. Of the buffer only the header is rewritten in
  host byte order.
\<close>

theorem tffs_parse_sentinel_first:
  assumes "4 < unat sz" and "4 \<le> length buf" and "buf ! 0 = 0xff" and "buf ! 1 = 0xff"
  shows "tffs_parse h sz tbl buf =
    Some (Inr \<lparr>buffer = [0xff, 0xff] @ host_bytes h (buf ! 2) (buf ! 3) @ drop 4 buf,
               table = tbl, pos = 0, count = 0\<rparr>)"
proof -
  let ?s = "\<lparr>buffer = buf, table = tbl, pos = 0, count = 0\<rparr>"
  have b: "buffer ?s = [] @ 0xff # 0xff # buf ! 2 # buf ! 3 # drop 4 buf"
    using header_split[of 0 buf] assms by (simp add: numeral_2_eq_2)
  have "tffs_parse_iter h ?s =
      Goto_End (?s\<lparr>buffer := [] @ host_bytes h 0xff 0xff @ host_bytes h (buf ! 2) (buf ! 3) @ drop 4 buf\<rparr>)"
    by (subst tffs_parse_iter_at[OF b]) (simp_all add: be16_ffff)
  moreover have "host_bytes h 0xff 0xff = [0xff, 0xff]"
    by (cases h) (simp_all add: host_bytes_def)
  ultimately show ?thesis
    using assms(1) unfolding tffs_parse_def
    by (subst tffs_parse_loop_step) simp_all
qed

theorem tffs_parse_sentinel_first_witness:
  "tffs_parse Little_Endian 8 ids [0xff, 0xff, 0x12, 0x34, 1, 2, 3, 4] =
    Some (Inr \<lparr>buffer = [0xff, 0xff, 0x34, 0x12, 1, 2, 3, 4], table = ids, pos = 0, count = 0\<rparr>)"
  using tffs_parse_sentinel_first[of 8 "[0xff, 0xff, 0x12, 0x34, 1, 2, 3, 4]" Little_Endian ids]
  by (simp add: host_bytes_def)

subsection \<open>C6: the loop condition is strict\<close>

text \<open>
  Claim C6. The body of the scan loop runs only while \<open>pos + 4 < tffs_size\<close>, with
  strict inequality: at a cursor with \<open>tffs_size \<le> pos + 4\<close>, in particular at the
  header that fills the final 4 bytes of the buffer, the loop ends and leaves the state
  as it is, so that header is never read. Consequently, for a buffer of declared length at
  most 4 (shorter than, or just, one record header) \<^verbatim>\<open>tffs_parse\<close> returns count 0,
  leaves the table and the buffer untouched, and runs into no fault.
\<close>

theorem tffs_parse_strict_bound:
  "(unat sz \<le> unat (pos s) + 4 \<longrightarrow> tffs_parse_loop h sz s = Some (Inr s)) \<and>
   (unat sz \<le> 4 \<longrightarrow>
      tffs_parse h sz tbl buf = Some (Inr \<lparr>buffer = buf, table = tbl, pos = 0, count = 0\<rparr>))"
  by (simp add: tffs_parse_def tffs_parse_loop_exit)

theorem tffs_parse_strict_bound_witness:
  "tffs_parse_loop Little_Endian 8
      \<lparr>buffer = [0xff, 0xff, 0, 0, 1, 0, 0, 0], table = ids, pos = 4, count = 0\<rparr>
     = Some (Inr \<lparr>buffer = [0xff, 0xff, 0, 0, 1, 0, 0, 0], table = ids, pos = 4, count = 0\<rparr>)
   \<and> tffs_parse Little_Endian 3 ids [1, 0, 0]
     = Some (Inr \<lparr>buffer = [1, 0, 0], table = ids, pos = 0, count = 0\<rparr>)"
  using tffs_parse_strict_bound[of 8
      "\<lparr>buffer = [0xff, 0xff, 0, 0, 1, 0, 0, 0], table = ids, pos = 4, count = 0\<rparr>" Little_Endian]
    tffs_parse_strict_bound[of 3 _ Little_Endian ids "[1, 0, 0]"]
  by simp

subsection \<open>C7: the registry lookup returns the first match\<close>

text \<open>
  Claim C7. For every 16-bit tag, \<^verbatim>\<open>tffs_find_id\<close> returns the first entry of the
  table, in declaration order, whose tag equals the input, and nothing when no entry
  has that tag. The lookup is a function of the table and the tag alone and returns an
  optional index: it changes nothing, and absence is \<open>None\<close>, not a failure.
\<close>

theorem tffs_find_id_first_match:
  "case tffs_find_id tbl (uint (t :: u16)) of
     None \<Rightarrow> \<forall>e\<in>set tbl. id_tag e \<noteq> ucast t
   | Some i \<Rightarrow> i < length tbl \<and> id_tag (tbl ! i) = ucast t \<and> (\<forall>j<i. id_tag (tbl ! j) \<noteq> ucast t)"
proof (cases "tffs_find_id tbl (uint t)")
  case None
  have "\<forall>e\<in>set tbl. id_tag e \<noteq> ucast t"
    unfolding ucast_eq using None by (simp only: tffs_find_id_None_iff)
  then show ?thesis unfolding None option.case .
next
  case (Some i)
  have "i < length tbl \<and> id_tag (tbl ! i) = ucast t \<and> (\<forall>j<i. id_tag (tbl ! j) \<noteq> ucast t)"
    unfolding ucast_eq using Some unfolding tffs_find_id_Some_iff by blast
  then show ?thesis unfolding Some option.case .
qed

theorem tffs_find_id_first_match_witness:
  "tffs_find_id ids (uint (0x01A3 :: u16)) = Some 13 \<and> name (ids ! 13) = ''usb_device_id''
   \<and> id_tag (ids ! 13) = ucast (0x01A3 :: u16) \<and> id_tag (ids ! 12) \<noteq> ucast (0x01A3 :: u16)
   \<and> id_tag (ids ! 14) = 0x01A3 \<and> name (ids ! 14) = ''usb_revision_id''"
proof -
  have a: "tffs_find_id ids (uint (0x01A3 :: u16)) = Some 13" by code_simp
  have c: "name (ids ! 13) = ''usb_device_id''" "id_tag (ids ! 14) = 0x01A3"
    "name (ids ! 14) = ''usb_revision_id''" by code_simp+
  have "13 < length ids \<and> id_tag (ids ! 13) = ucast (0x01A3 :: u16)
      \<and> (\<forall>j<13. id_tag (ids ! j) \<noteq> ucast (0x01A3 :: u16))"
    using tffs_find_id_first_match[of ids "0x01A3"] unfolding a option.case .
  moreover have "(12::nat) < 13" by simp
  ultimately have "id_tag (ids ! 13) = ucast (0x01A3 :: u16)"
      "id_tag (ids ! 12) \<noteq> ucast (0x01A3 :: u16)"
    by blast+
  thus ?thesis using a c by (simp only: simp_thms)
qed

subsection \<open>C8: a tag registered twice\<close>

text \<open>
  Claim C8 says that the value of a record whose tag is registered under several names
  goes to the last entry registered for the tag. The tag \<open>0x01A3\<close> is registered as
  \<^verbatim>\<open>usb_device_id\<close> (entry 13) and as \<^verbatim>\<open>usb_revision_id\<close> (entry 14). After decoding a
  buffer with one record of that tag, the value is in entry 13 and entry 14 has none.
\<close>

theorem tffs_parse_usb_device_id:
  "tffs_parse Little_Endian 13 ids [0x01, 0xA3, 0x00, 0x02, 0x34, 0x32, 0, 0, 0xff, 0xff, 0, 0, 0]
     = Some (Inr \<lparr>buffer = [0xA3, 0x01, 0x02, 0x00, 0x34, 0x32, 0, 0, 0xff, 0xff, 0, 0, 0],
                 table = ids[13 := (ids ! 13)\<lparr>len := 2, offset := 4, val := Some [0x34, 0x32, 0]\<rparr>],
                 pos = 8, count = 1\<rparr>) \<and>
   name (ids ! 13) = ''usb_device_id'' \<and> name (ids ! 14) = ''usb_revision_id'' \<and>
   id_tag (ids ! 13) = 0x01A3 \<and> id_tag (ids ! 14) = 0x01A3 \<and>
   val (ids[13 := (ids ! 13)\<lparr>len := 2, offset := 4, val := Some [0x34, 0x32, 0]\<rparr>] ! 14) = None"
  by code_simp

text \<open>
  Claim C8, amended. For a stream of well-formed records ended by the sentinel or the end of
  the buffer, the value of the last record of a registered tag is stored in the first entry
  of the table, in declaration order, that carries the tag, under that entry's name. Every
  later entry with the same tag is left as it was before the call.
\<close>

theorem tffs_parse_first_registered:
  assumes "\<forall>r\<in>set (as @ r # cs). tlv_ok r"
    and "scan_end rest"
    and "buf = wire (as @ r # cs) @ rest"
    and "length buf = unat sz"
    and "length buf < 4294967296"
    and "tffs_find_id tbl (uint (tlv_tag r)) = Some i"
    and "\<forall>c\<in>set cs. tlv_tag c \<noteq> tlv_tag r"
  shows "\<exists>s'. tffs_parse h sz tbl buf = Some (Inr s') \<and>
           val (table s' ! i) = Some (tlv_payload r @ [0]) \<and>
           name (table s' ! i) = name (tbl ! i) \<and>
           id_tag (tbl ! i) = ucast (tlv_tag r) \<and>
           (\<forall>j<i. id_tag (tbl ! j) \<noteq> ucast (tlv_tag r)) \<and>
           (\<forall>j. i < j \<and> id_tag (tbl ! j) = ucast (tlv_tag r) \<longrightarrow> table s' ! j = tbl ! j)"
proof -
  let ?rs = "as @ r # cs"
  have i: "i < length tbl" and t: "id_tag (tbl ! i) = ucast (tlv_tag r)"
    and first: "\<forall>j<i. id_tag (tbl ! j) \<noteq> ucast (tlv_tag r)"
    using assms(6) unfolding ucast_eq tffs_find_id_Some_iff by blast+
  have e: "store_values tbl 0 ?rs ! i =
      (store_values tbl 0 as ! i)\<lparr>len := word_of_nat (length (tlv_payload r)),
         offset := word_of_nat (0 + length (wire as) + 4),
         val := Some (tlv_payload r @ [0])\<rparr>"
    by (rule store_values_last[OF assms(6,7)])
  have later: "store_values tbl 0 ?rs ! j = tbl ! j"
    if "i < j" "id_tag (tbl ! j) = ucast (tlv_tag r)" for j
  proof (rule store_values_other, rule ballI)
    fix x assume "x \<in> set ?rs"
    have "id_tag (tbl ! i) = id_tag (tbl ! j)" using t that(2) by simp
    thus "tffs_find_id tbl (uint (tlv_tag x)) \<noteq> Some j"
      using that(1) by (intro tffs_find_id_not_later)
  qed
  show ?thesis
    unfolding tffs_parse_stream[OF assms(1,2,3,4,5)]
    using i t first later by (simp add: e name_store_values_nth)
qed

theorem tffs_parse_first_registered_witness:
  "\<exists>s'. tffs_parse Little_Endian 13 ids [0x01, 0xA3, 0x00, 0x02, 0x34, 0x32, 0, 0, 0xff, 0xff, 0, 0, 0]
           = Some (Inr s') \<and>
         val (table s' ! 13) = Some [0x34, 0x32, 0] \<and>
         name (table s' ! 13) = ''usb_device_id'' \<and>
         table s' ! 14 = ids ! 14 \<and> name (ids ! 14) = ''usb_revision_id'' \<and> val (ids ! 14) = None"
proof -
  let ?r = "\<lparr>tlv_tag = 0x01A3, tlv_payload = [0x34, 0x32], tlv_padding = [0, 0]\<rparr>"
  have f: "tffs_find_id ids (uint (tlv_tag ?r)) = Some 13" by code_simp
  have n: "name (ids ! 13) = ''usb_device_id''" "name (ids ! 14) = ''usb_revision_id''"
      "val (ids ! 14) = None" by code_simp+
  have t: "id_tag (ids ! 14) = ucast (tlv_tag ?r)" by code_simp
  have ok: "\<forall>x\<in>set ([] @ ?r # []). tlv_ok x" by (simp add: tlv_ok_def)
  have e: "scan_end [0xff, 0xff, 0, 0, 0]" by (simp add: scan_end_def)
  have b: "[0x01, 0xA3, 0x00, 0x02, 0x34, 0x32, 0, 0, 0xff, 0xff, 0, 0, 0]
      = wire ([] @ ?r # []) @ [0xff, 0xff, 0, 0, (0::u8)]"
    by (simp add: wire_example_4)
  obtain s' where s': "tffs_parse Little_Endian 13 ids
        [0x01, 0xA3, 0x00, 0x02, 0x34, 0x32, 0, 0, 0xff, 0xff, 0, 0, 0] = Some (Inr s')"
      "val (table s' ! 13) = Some (tlv_payload ?r @ [0])"
      "name (table s' ! 13) = name (ids ! 13)"
      "\<forall>j. 13 < j \<and> id_tag (ids ! j) = ucast (tlv_tag ?r) \<longrightarrow> table s' ! j = ids ! j"
    using tffs_parse_first_registered[OF ok e b _ _ f, of 13 Little_Endian] by auto
  have "table s' ! 14 = ids ! 14" using s'(4) t by simp
  thus ?thesis using s'(1,2,3) n by auto
qed

subsection \<open>C9: the table outlives the call\<close>

text \<open>
  Claim C9 says that what a call of the decoder produces does not depend on calls made
  before it. \<^verbatim>\<open>tffs_parse\<close> stores the values in the static table \<^verbatim>\<open>ids\<close>, which is never
  reset. After the buffer with the record \<^verbatim>\<open>hw_revision\<close> below has been decoded, decoding
  a buffer that holds the sentinel alone leaves \<^verbatim>\<open>hw_revision\<close> with the value of the first
  buffer, whereas the same call on the initial table leaves it without a value.
\<close>

theorem tffs_parse_keeps_earlier_values:
  "tffs_parse Little_Endian 13 ids [0x01, 0x00, 0x00, 0x01, 0x41, 0, 0, 0, 0xff, 0xff, 0, 0, 0]
     = Some (Inr \<lparr>buffer = [0x00, 0x01, 0x01, 0x00, 0x41, 0, 0, 0, 0xff, 0xff, 0, 0, 0],
                 table = ids[0 := (ids ! 0)\<lparr>len := 1, offset := 4, val := Some [0x41, 0]\<rparr>],
                 pos = 8, count = 1\<rparr>) \<and>
   tffs_parse Little_Endian 5 (ids[0 := (ids ! 0)\<lparr>len := 1, offset := 4, val := Some [0x41, 0]\<rparr>])
       [0xff, 0xff, 0, 0, 0]
     = Some (Inr \<lparr>buffer = [0xff, 0xff, 0, 0, 0],
                 table = ids[0 := (ids ! 0)\<lparr>len := 1, offset := 4, val := Some [0x41, 0]\<rparr>],
                 pos = 0, count = 0\<rparr>) \<and>
   tffs_parse Little_Endian 5 ids [0xff, 0xff, 0, 0, 0]
     = Some (Inr \<lparr>buffer = [0xff, 0xff, 0, 0, 0], table = ids, pos = 0, count = 0\<rparr>) \<and>
   val (ids[0 := (ids ! 0)\<lparr>len := 1, offset := 4, val := Some [0x41, 0]\<rparr>] ! 0) = Some [0x41, 0] \<and>
   val (ids ! 0) = None \<and> name (ids ! 0) = ''hw_revision''"
  by code_simp

text \<open>
  Claim C9, amended. Take two calls of \<^verbatim>\<open>tffs_parse\<close> on the same stream of well-formed
  records, ended by the sentinel or the end of the buffer, that start from tables with the
  same tags, such as the initial table and the table an earlier call has left. Both return
  the same count and leave the same buffer. An entry that a record of the stream matches
  holds the same \<^verbatim>\<open>val\<close>, \<^verbatim>\<open>len\<close> and \<^verbatim>\<open>offset\<close> after both calls. An entry that no
  record matches is as it was before the call, so it still shows what an earlier call has
  stored.
\<close>

theorem tffs_parse_table_dependence:
  assumes "\<forall>r\<in>set rs. tlv_ok r"
    and "scan_end rest"
    and "buf = wire rs @ rest"
    and "length buf = unat sz"
    and "length buf < 4294967296"
    and "map id_tag t1 = map id_tag t2"
  shows "\<exists>s1 s2. tffs_parse h sz t1 buf = Some (Inr s1) \<and> tffs_parse h sz t2 buf = Some (Inr s2) \<and>
           count s1 = count s2 \<and> buffer s1 = buffer s2 \<and>
           (\<forall>i. if \<exists>r\<in>set rs. tffs_find_id t1 (uint (tlv_tag r)) = Some i
                then val (table s1 ! i) = val (table s2 ! i) \<and>
                     len (table s1 ! i) = len (table s2 ! i) \<and>
                     offset (table s1 ! i) = offset (table s2 ! i)
                else table s1 ! i = t1 ! i \<and> table s2 ! i = t2 ! i)"
  unfolding tffs_parse_stream[OF assms(1,2,3,4,5)]
  using store_values_matched[OF assms(6)] store_values_unmatched[OF assms(6)]
  by (simp add: registered_cong[OF assms(6)])

theorem tffs_parse_table_dependence_witness:
  "\<exists>s1 s2. tffs_parse Little_Endian 13 ids
              [0x01, 0x01, 0x00, 0x04, 0x41, 0x42, 0x43, 0x44, 0xff, 0xff, 0, 0, 0] = Some (Inr s1) \<and>
     tffs_parse Little_Endian 13 (ids[0 := (ids ! 0)\<lparr>len := 1, offset := 4, val := Some [0x41, 0]\<rparr>])
              [0x01, 0x01, 0x00, 0x04, 0x41, 0x42, 0x43, 0x44, 0xff, 0xff, 0, 0, 0] = Some (Inr s2) \<and>
     count s1 = count s2 \<and> val (table s1 ! 1) = val (table s2 ! 1) \<and>
     table s1 ! 0 = ids ! 0 \<and>
     table s2 ! 0 = ids[0 := (ids ! 0)\<lparr>len := 1, offset := 4, val := Some [0x41, 0]\<rparr>] ! 0"
proof -
  let ?r = "\<lparr>tlv_tag = 0x0101, tlv_payload = [0x41, 0x42, 0x43, 0x44], tlv_padding = []\<rparr>"
  let ?t2 = "ids[0 := (ids ! 0)\<lparr>len := 1, offset := 4, val := Some [0x41, 0]\<rparr>]"
  let ?buf = "[0x01, 0x01, 0x00, 0x04, 0x41, 0x42, 0x43, 0x44, 0xff, 0xff, 0, 0, 0] :: u8 list"
  have ok: "\<forall>r\<in>set [?r]. tlv_ok r" by (simp add: tlv_ok_def)
  have e: "scan_end [0xff, 0xff, 0, 0, 0]" by (simp add: scan_end_def)
  have b: "?buf = wire [?r] @ [0xff, 0xff, 0, 0, 0]" by (simp add: wire_example_7)
  have l: "length ?buf = unat (13 :: u64)" by simp
  have sm: "length ?buf < 4294967296" by simp
  have f: "tffs_find_id ids (uint (tlv_tag ?r)) = Some 1" by code_simp
  obtain s1 s2 where s: "tffs_parse Little_Endian 13 ids ?buf = Some (Inr s1)"
      "tffs_parse Little_Endian 13 ?t2 ?buf = Some (Inr s2)" "count s1 = count s2"
      and a: "\<forall>i. if \<exists>r\<in>set [?r]. tffs_find_id ids (uint (tlv_tag r)) = Some i
                then val (table s1 ! i) = val (table s2 ! i) \<and>
                     len (table s1 ! i) = len (table s2 ! i) \<and>
                     offset (table s1 ! i) = offset (table s2 ! i)
                else table s1 ! i = ids ! i \<and> table s2 ! i = ?t2 ! i"
    using tffs_parse_table_dependence[OF ok e b l sm id_tag_example_7, of Little_Endian] by blast
  have "val (table s1 ! 1) = val (table s2 ! 1)" using a[rule_format, of 1] f by simp
  moreover have "table s1 ! 0 = ids ! 0 \<and> table s2 ! 0 = ?t2 ! 0"
    using a[rule_format, of 0] f by simp
  ultimately show ?thesis using s by blast
qed

subsection \<open>C10: the headers are rewritten in place\<close>

text \<open>
  Claim C10. \<^verbatim>\<open>tffs_parse\<close> changes the buffer it is given. A pass of the loop that
  completes, whether it continues or leaves at the sentinel and whether or not the tag is
  registered, stores tag and length of the header at the cursor back in host byte order
  (the two bytes of each field exchanged on a little-endian host) and changes no other
  byte. For a stream of well-formed records ended by the sentinel or the end of the buffer,
  the buffer after the call is the stream with the header of every record, and of the
  sentinel, in host byte order; payloads and padding are as before.
\<close>

theorem tffs_parse_rewrites_headers:
  "(buffer s = pre @ t0 # t1 # l0 # l1 # post \<and> unat (pos s) = length pre \<and>
    (tffs_parse_iter h s = Continue s' \<or> tffs_parse_iter h s = Goto_End s')
    \<longrightarrow> buffer s' = pre @ store_u16 h (be16 t0 t1) @ store_u16 h (be16 l0 l1) @ post) \<and>
   store_u16 Little_Endian (be16 t0 t1) = [t1, t0] \<and>
   store_u16 Big_Endian (be16 t0 t1) = [t0, t1] \<and>
   ((\<forall>r\<in>set rs. tlv_ok r) \<and> scan_end rest \<and> buf = wire rs @ rest \<and>
    length buf = unat sz \<and> length buf < 4294967296
    \<longrightarrow> (\<exists>s'. tffs_parse h sz tbl buf = Some (Inr s') \<and>
              buffer s' = concat (map (tlv_bytes h) rs) @ scan_end_bytes h rest))"
proof (intro conjI impI)
  assume a: "buffer s = pre @ t0 # t1 # l0 # l1 # post \<and> unat (pos s) = length pre \<and>
    (tffs_parse_iter h s = Continue s' \<or> tffs_parse_iter h s = Goto_End s')"
  have s1: "swap_u16_at h (pre @ t0 # t1 # l0 # l1 # post) (length pre)
      = (be16 t0 t1, pre @ host_bytes h t0 t1 @ l0 # l1 # post)"
    by (simp add: swap_u16_at_append)
  have s2: "swap_u16_at h (pre @ host_bytes h t0 t1 @ l0 # l1 # post) (Suc (Suc (length pre)))
      = (be16 l0 l1, pre @ host_bytes h t0 t1 @ host_bytes h l0 l1 @ post)"
    using swap_u16_at_append[of h "pre @ host_bytes h t0 t1" l0 l1 post] by simp
  have "buffer s' = pre @ host_bytes h t0 t1 @ host_bytes h l0 l1 @ post"
    using a unfolding tffs_parse_iter_def
    by (auto simp: s1 s2 Let_def split: if_splits option.splits)
  thus "buffer s' = pre @ store_u16 h (be16 t0 t1) @ store_u16 h (be16 l0 l1) @ post"
    by (simp only: store_u16_be16)
next
  show "store_u16 Little_Endian (be16 t0 t1) = [t1, t0]"
    by (simp add: store_u16_be16 host_bytes_def)
next
  show "store_u16 Big_Endian (be16 t0 t1) = [t0, t1]"
    by (simp add: store_u16_be16 host_bytes_def)
next
  assume a: "(\<forall>r\<in>set rs. tlv_ok r) \<and> scan_end rest \<and> buf = wire rs @ rest \<and>
    length buf = unat sz \<and> length buf < 4294967296"
  hence ok: "\<forall>r\<in>set rs. tlv_ok r" and e: "scan_end rest" and b: "buf = wire rs @ rest"
    and l: "length buf = unat sz" and sm: "length buf < 4294967296"
    by blast+
  show "\<exists>s'. tffs_parse h sz tbl buf = Some (Inr s') \<and>
              buffer s' = concat (map (tlv_bytes h) rs) @ scan_end_bytes h rest"
    by (simp add: tffs_parse_stream[OF ok e b l sm])
qed

theorem tffs_parse_rewrites_headers_witness:
  "\<exists>s'. tffs_parse Little_Endian 21 ids
           [1, 0, 0, 1, 65, 0, 0, 0, 0, 5, 0, 2, 7, 8, 0, 0, 0xff, 0xff, 0x12, 0x34, 9] = Some (Inr s') \<and>
         buffer s' = [0, 1, 1, 0, 65, 0, 0, 0, 5, 0, 2, 0, 7, 8, 0, 0, 0xff, 0xff, 0x34, 0x12, 9]"
proof -
  let ?r1 = "\<lparr>tlv_tag = 0x0100, tlv_payload = [65], tlv_padding = [0, 0, 0]\<rparr>"
  let ?r2 = "\<lparr>tlv_tag = 0x0005, tlv_payload = [7, 8], tlv_padding = [0, 0]\<rparr>"
  show ?thesis
    using tffs_parse_rewrites_headers[where rs = "[?r1, ?r2]" and rest = "[0xff, 0xff, 0x12, 0x34, 9]"
        and buf = "[1, 0, 0, 1, 65, 0, 0, 0, 0, 5, 0, 2, 7, 8, 0, 0, 0xff, 0xff, 0x12, 0x34, 9]"
        and sz = 21 and h = Little_Endian and tbl = ids, THEN conjunct2, THEN conjunct2, THEN conjunct2]
    unfolding host_example_2
    by (simp add: tlv_ok_def scan_end_def wire_example_2 scan_end_bytes_def host_bytes_def)
qed

end
